theory Spec2Isabelle
  imports Complex_Main "HOL-Library.Multiset"
begin

section \<open>Page update checker: a shallow embedding of checker.py\<close>

text \<open>
  The program fetches a list of watched pages, normalises their text, compares a hash of
  the text with the stored one, archives and summarises changes, keeps a bounded change
  log and renders an RSS feed.

  Conventions of the embedding.
  \<^item> Python \<open>str\<close> is \<open>string\<close>; a character stands for a code point below 256.
  \<^item> A \<open>dict\<close> read with \<open>.get\<close> is a record of \<open>option\<close> fields, \<open>None\<close> for a key
    that is absent or \<open>null\<close>.
  \<^item> The float timestamps of \<open>time.time()\<close> are \<open>real\<close> numbers; only their order and
    their integer part are used by the program.
  \<^item> Library calls whose code is not part of the program (the HTTP client, the HTML
    parser and its selector engine, \<open>hashlib\<close>, \<open>difflib\<close>, date formatting) are
    parameters, collected in the record \<open>env\<close>.
  \<^item> An exception of the HTTP client ends the run; the run's outcome records it.
\<close>

subsection \<open>Strings\<close>

text \<open>\<open>sep.join(xs)\<close>.\<close>

fun join :: "string \<Rightarrow> string list \<Rightarrow> string" where
  "join sep [] = []"
| "join sep [x] = x"
| "join sep (x # y # ys) = x @ sep @ join sep (y # ys)"

text \<open>\<open>s.replace(c, new)\<close> for a pattern \<open>c\<close> of one character.\<close>

definition replace :: "char \<Rightarrow> string \<Rightarrow> string \<Rightarrow> string" where
  "replace c new s = concat (map (\<lambda>x. if x = c then new else [x]) s)"

text \<open>\<open>str(n)\<close> for an integer, as an f-string prints it.\<close>

fun str_nat :: "nat \<Rightarrow> string" where
  "str_nat n = (if n < 10 then [''0123456789'' ! n]
                else str_nat (n div 10) @ [''0123456789'' ! (n mod 10)])"

declare str_nat.simps [simp del]

definition str_int :: "int \<Rightarrow> string" where
  "str_int i = (if i < 0 then CHR ''-'' # str_nat (nat (- i)) else str_nat (nat i))"

text \<open>\<open>int(x)\<close> on a float truncates towards zero.\<close>

definition py_int :: "real \<Rightarrow> int" where
  "py_int x = (if 0 \<le> x then \<lfloor>x\<rfloor> else \<lceil>x\<rceil>)"

text \<open>
  \<open>str.isspace\<close> on the code points below 256: tab, line feed, vertical tab, form feed,
  carriage return, the separators 0x1c to 0x1f, space, 0x85 and 0xa0.
\<close>

definition isspace :: "char \<Rightarrow> bool" where
  "isspace c = (of_char c \<in> {9, 10, 11, 12, 13, 28, 29, 30, 31, 32, 133, 160 :: nat})"

text \<open>\<open>s.strip()\<close>.\<close>

definition strip :: "string \<Rightarrow> string" where
  "strip s = rev (dropWhile isspace (rev (dropWhile isspace s)))"

text \<open>
  \<open>s.splitlines()\<close>: a line ends at a line feed, a carriage return (with the line feed
  that follows it, if any), a vertical tab, a form feed, 0x1c, 0x1d, 0x1e or 0x85; the
  line ends are dropped and a final line end starts no new line.
\<close>

definition is_linebreak :: "char \<Rightarrow> bool" where
  "is_linebreak c = (of_char c \<in> {10, 11, 12, 13, 28, 29, 30, 133 :: nat})"

fun splitlines_from :: "string \<Rightarrow> string \<Rightarrow> string list" where
  "splitlines_from cur [] = (if cur = [] then [] else [rev cur])"
| "splitlines_from cur [c] =
     (if is_linebreak c then [rev cur] else [rev (c # cur)])"
| "splitlines_from cur (c # d # cs) =
     (if c = CHR 0x0D \<and> d = CHR 0x0A then rev cur # splitlines_from [] cs
      else if is_linebreak c then rev cur # splitlines_from [] (d # cs)
      else splitlines_from (c # cur) (d # cs))"

definition splitlines :: "string \<Rightarrow> string list" where
  "splitlines s = splitlines_from [] s"

subsection \<open>The diff preview (lines 142 to 157 of main)\<close>

definition fallback_summary :: string where
  "fallback_summary = ''Content changed.''"

definition truncation_marker :: string where
  "truncation_marker = ''... (diff truncated)''"

text \<open>
  The loop \<open>for i, line in enumerate(diff)\<close>: \<open>i\<close> is the index of \<open>line\<close>, \<open>preview\<close>
  the list built so far; at an index above 20 the marker is appended and the loop breaks.
\<close>

fun preview_loop :: "nat \<Rightarrow> string list \<Rightarrow> string list \<Rightarrow> string list" where
  "preview_loop i preview [] = preview"
| "preview_loop i preview (line # rest) =
     (if i > 20 then preview @ [truncation_marker]
      else preview_loop (Suc i) (preview @ [line]) rest)"

definition preview_lines :: "string list \<Rightarrow> string list" where
  "preview_lines diff = preview_loop 0 [] diff"

text \<open>\<open>"\n".join(preview) or "Content changed."\<close>\<close>

definition summary_of_diff :: "string list \<Rightarrow> string" where
  "summary_of_diff diff =
     (let s = join [CHR 0x0A] (preview_lines diff)
      in if s = [] then fallback_summary else s)"

text \<open>
  The summary of a change. \<open>old_text\<close> is \<open>None\<close> when no previous snapshot was read;
  \<open>if old_text:\<close> is also false for an empty previous text.
\<close>

definition make_summary ::
  "(string list \<Rightarrow> string list \<Rightarrow> string list) \<Rightarrow> string option \<Rightarrow> string \<Rightarrow> string" where
  "make_summary unified_diff old_text text =
     (case old_text of
        None \<Rightarrow> fallback_summary
      | Some old \<Rightarrow>
          if old = [] then fallback_summary
          else summary_of_diff (unified_diff (splitlines old) (splitlines text)))"

subsection \<open>The normaliser (clean_html)\<close>

text \<open>
  \<open>re.sub\<close> for a pattern that matches a run of at least \<open>m\<close> characters of one class:
  scanning from the left, a maximal run of length \<open>m\<close> or more is replaced by \<open>repl\<close>,
  any other character is kept.
\<close>

function re_sub_run :: "(char \<Rightarrow> bool) \<Rightarrow> nat \<Rightarrow> string \<Rightarrow> string \<Rightarrow> string" where
  "re_sub_run P m repl [] = []"
| "re_sub_run P m repl (c # cs) =
     (if P c \<and> m \<le> length (takeWhile P (c # cs))
      then repl @ re_sub_run P m repl (dropWhile P cs)
      else c # re_sub_run P m repl cs)"
  by pat_completeness auto
termination
  by (relation "measure (\<lambda>(P, m, repl, s). length s)")
     (auto simp: less_Suc_eq_le length_dropWhile_le)

definition is_blank :: "char \<Rightarrow> bool" where
  "is_blank c = (c = CHR '' '' \<or> c = CHR 0x09)"

definition is_newline :: "char \<Rightarrow> bool" where
  "is_newline c = (c = CHR 0x0A)"

text \<open>
  The parsed document as the program uses it: text nodes and elements with a name,
  attributes and children. Comments and declarations carry no text for \<open>get_text\<close> and
  are left out.
\<close>

datatype node = Text string | Tag string "(string \<times> string) list" "node list"

text \<open>
  \<open>for tag in soup(names): tag.decompose()\<close>: every element with one of the names is
  removed from the tree, with all it contains.
\<close>

fun decompose :: "string list \<Rightarrow> node \<Rightarrow> node list" where
  "decompose names (Text s) = [Text s]"
| "decompose names (Tag n attrs children) =
     (if n \<in> set names then []
      else [Tag n attrs (concat (map (decompose names) children))])"

text \<open>
  \<open>soup.get_text(sep)\<close> joins the strings of the tree that have the class of plain
  text, in document order. The parser gives the text inside an \<open>rt\<close>, \<open>rp\<close>, \<open>style\<close>,
  \<open>script\<close> or \<open>template\<close> element a class of its own, at any depth, so that text is
  left out.
\<close>

definition string_containers :: "string list" where
  "string_containers = [''rt'', ''rp'', ''style'', ''script'', ''template'']"

fun strings :: "node \<Rightarrow> string list" where
  "strings (Text s) = [s]"
| "strings (Tag n attrs children) =
     (if n \<in> set string_containers then [] else concat (map strings children))"

definition get_text :: "string \<Rightarrow> node list \<Rightarrow> string" where
  "get_text sep soup = join sep (concat (map strings soup))"

text \<open>The names of the elements of a tree.\<close>

fun tag_names :: "node \<Rightarrow> string list" where
  "tag_names (Text s) = []"
| "tag_names (Tag n attrs children) = n # concat (map tag_names children)"

subsection \<open>Data of the program\<close>

text \<open>An entry of urls.json; \<open>title\<close> and \<open>selector\<close> are optional.\<close>

record entry =
  entry_id :: string
  entry_url :: string
  entry_title :: "string option"
  entry_selector :: "string option"

text \<open>A value of state.json; \<open>state.get(uid, {})\<close> gives the record with no field set.\<close>

record target_state =
  hash :: "string option"
  etag :: "string option"
  last_modified :: "string option"
  last_text_file :: "string option"

definition no_state :: target_state where
  "no_state = \<lparr>hash = None, etag = None, last_modified = None, last_text_file = None\<rparr>"

text \<open>An element of changes.json; \<open>summary\<close> is read with a default.\<close>

record change =
  change_id :: string
  change_url :: string
  change_title :: string
  timestamp :: real
  change_hash :: string
  summary :: "string option"

text \<open>What the program reads of a response.\<close>

record response =
  status_code :: int
  header_etag :: "string option"
  header_last_modified :: "string option"
  response_text :: string

datatype fetch_result = Raises | Returns response

text \<open>
  The library calls and the platform. \<open>requests_get\<close> and \<open>time_time\<close> take the index of
  the entry being processed, so that each call may answer differently.
\<close>

record env =
  requests_get :: "nat \<Rightarrow> string \<Rightarrow> (string \<times> string) list \<Rightarrow> fetch_result"
  time_time :: "nat \<Rightarrow> real"
  BeautifulSoup :: "string \<Rightarrow> node list"
  select_one :: "string \<Rightarrow> node list \<Rightarrow> node option"
  str_node :: "node \<Rightarrow> string"
  sha256 :: "string \<Rightarrow> string"
  unified_diff :: "string list \<Rightarrow> string list \<Rightarrow> string list"
  format_datetime :: "real \<Rightarrow> string"
  linesep :: string

text \<open>Truth of an optional string: \<open>None\<close> and the empty string are false.\<close>

definition truthy :: "string option \<Rightarrow> bool" where
  "truthy v = (case v of None \<Rightarrow> False | Some s \<Rightarrow> s \<noteq> [])"

text \<open>\<open>a or b\<close> on optional strings.\<close>

definition py_or :: "string option \<Rightarrow> string option \<Rightarrow> string option" where
  "py_or a b = (if truthy a then a else b)"

text \<open>
  Lines 32 to 37: the soup that is normalised, \<open>None\<close> when a selector is given and
  matches nothing.
\<close>

definition scoped_soup :: "env \<Rightarrow> string \<Rightarrow> string option \<Rightarrow> node list option" where
  "scoped_soup env html selector =
     (let soup = BeautifulSoup env html
      in if truthy selector then
           (case select_one env (the selector) soup of
              None \<Rightarrow> None
            | Some target \<Rightarrow> Some (BeautifulSoup env (str_node env target)))
         else Some soup)"

definition removed_tags :: "string list" where
  "removed_tags = [''script'', ''style'', ''noscript'']"

text \<open>Lines 38 to 40: the text of the soup once the three kinds of element are removed.\<close>

definition soup_text :: "node list \<Rightarrow> string" where
  "soup_text soup = get_text [CHR 0x0A] (concat (map (decompose removed_tags) soup))"

text \<open>Lines 41 to 42.\<close>

definition squeeze :: "string \<Rightarrow> string" where
  "squeeze text =
     strip (re_sub_run is_newline 2 [CHR 0x0A] (re_sub_run is_blank 1 '' '' text))"

definition clean_html :: "env \<Rightarrow> string \<Rightarrow> string option \<Rightarrow> string" where
  "clean_html env html selector =
     (case scoped_soup env html selector of
        None \<Rightarrow> []
      | Some soup \<Rightarrow> squeeze (soup_text soup))"

subsection \<open>The fetcher\<close>

definition fetch_with_conditionals ::
  "env \<Rightarrow> nat \<Rightarrow> string \<Rightarrow> target_state \<Rightarrow> fetch_result" where
  "fetch_with_conditionals env i url prev_meta =
     (let headers0 = [(''User-Agent'', ''GitHubActions-PageWatcher/1.0 (+https://github.com/)''),
                      (''Accept'', ''text/html,application/xhtml+xml'')];
          headers1 = (if truthy (etag prev_meta)
                      then headers0 @ [(''If-None-Match'', the (etag prev_meta))]
                      else headers0);
          headers2 = (if truthy (last_modified prev_meta)
                      then headers1 @ [(''If-Modified-Since'', the (last_modified prev_meta))]
                      else headers1)
      in requests_get env i url headers2)"

subsection \<open>The loop of main\<close>

text \<open>
  The variables of \<open>main\<close> that the loop changes, and the snapshot directory: a file of
  it is addressed by the target id and the file name.
\<close>

record run_state =
  state :: "string \<rightharpoonup> target_state"
  changes :: "change list"
  something_changed :: bool
  snapshots :: "string \<times> string \<rightharpoonup> string"

text \<open>\<open>state.get(uid, {})\<close>\<close>

definition previous :: "run_state \<Rightarrow> string \<Rightarrow> target_state" where
  "previous s uid = (case state s uid of None \<Rightarrow> no_state | Some p \<Rightarrow> p)"

text \<open>The name of the snapshot written at time \<open>ts\<close>, with the given extension.\<close>

definition snapshot_name :: "real \<Rightarrow> string \<Rightarrow> string" where
  "snapshot_name ts ext = str_int (py_int ts) @ ext"

text \<open>
  Lines 143 to 145, after the new snapshot is written: the previous text, when the stored
  file name is set and the file exists.
\<close>

definition read_old_text ::
  "(string \<times> string \<rightharpoonup> string) \<Rightarrow> string \<Rightarrow> target_state \<Rightarrow> string option" where
  "read_old_text snaps uid prev =
     (if truthy (last_text_file prev) then snaps (uid, the (last_text_file prev)) else None)"

text \<open>Lines 122 to 174: the body of the loop once the request has returned.\<close>

definition process_response :: "env \<Rightarrow> nat \<Rightarrow> entry \<Rightarrow> response \<Rightarrow> run_state \<Rightarrow> run_state" where
  "process_response env i entry resp s =
     (let uid = entry_id entry;
          url = entry_url entry;
          title = (case entry_title entry of None \<Rightarrow> url | Some t \<Rightarrow> t);
          selector = entry_selector entry;
          prev = previous s uid
      in if status_code resp = 304 then s
         else if \<not> (200 \<le> status_code resp \<and> status_code resp < 300) then s
         else
           (let new_etag = header_etag resp;
                last_mod = header_last_modified resp;
                text = clean_html env (response_text resp) selector;
                h = sha256 env text
            in if hash prev \<noteq> Some h then
                 (let ts = time_time env i;
                      snaps1 = (snapshots s)((uid, snapshot_name ts ''.txt'') \<mapsto> text);
                      snaps2 = snaps1((uid, snapshot_name ts ''.html'') \<mapsto> response_text resp);
                      new_summary = make_summary (unified_diff env)
                                      (read_old_text snaps2 uid prev) text
                  in s\<lparr>state := (state s)(uid \<mapsto>
                          \<lparr>hash = Some h, etag = new_etag, last_modified = last_mod,
                           last_text_file = Some (snapshot_name ts ''.txt'')\<rparr>),
                        changes := changes s @
                          [\<lparr>change_id = uid, change_url = url, change_title = title,
                            timestamp = ts, change_hash = h, summary = Some new_summary\<rparr>],
                        something_changed := True,
                        snapshots := snaps2\<rparr>)
               else
                 s\<lparr>state := (state s)(uid \<mapsto>
                     \<lparr>hash = Some h,
                      etag = py_or new_etag (etag prev),
                      last_modified = py_or last_mod (last_modified prev),
                      last_text_file = last_text_file prev\<rparr>)\<rparr>))"

datatype outcome = Completed | Aborted

text \<open>
  \<open>for entry in urls\<close>, \<open>i\<close> counting the entries. An exception of the request leaves the
  loop and the program with the state reached so far.
\<close>

fun main_loop :: "env \<Rightarrow> nat \<Rightarrow> entry list \<Rightarrow> run_state \<Rightarrow> outcome \<times> run_state" where
  "main_loop env i [] s = (Completed, s)"
| "main_loop env i (entry # rest) s =
     (case fetch_with_conditionals env i (entry_url entry) (previous s (entry_id entry)) of
        Raises \<Rightarrow> (Aborted, s)
      | Returns resp \<Rightarrow> main_loop env (Suc i) rest (process_response env i entry resp s))"

subsection \<open>The change log order\<close>

text \<open>
  \<open>sorted(changes, key=lambda c: c["timestamp"], reverse=True)\<close>: a stable sort by
  descending timestamp.
\<close>

definition sorted_desc :: "change list \<Rightarrow> change list" where
  "sorted_desc cs = sort_key (\<lambda>c. - timestamp c) cs"

subsection \<open>The feed\<close>

definition nl :: string where
  "nl = [CHR 0x0A]"

definition dq :: string where
  "dq = [CHR 0x22]"

text \<open>\<open>ts or time.time()\<close>, formatted; \<open>now\<close> is the reading of the clock.\<close>

definition rfc2822_now :: "env \<Rightarrow> real \<Rightarrow> real option \<Rightarrow> string" where
  "rfc2822_now env now ts =
     format_datetime env (case ts of None \<Rightarrow> now | Some t \<Rightarrow> if t = 0 then now else t)"

definition esc :: "string \<Rightarrow> string" where
  "esc s = replace (CHR ''>'') ''&gt;'' (replace (CHR ''<'') ''&lt;''
             (replace (CHR ''&'') ''&amp;'' s))"

text \<open>The four texts of an item, as lines 79 to 82 compute them.\<close>

definition item_title :: "change \<Rightarrow> string" where
  "item_title c = change_title c @ '' changed''"

definition item_link :: "change \<Rightarrow> string" where
  "item_link c = change_url c"

definition item_guid :: "change \<Rightarrow> string" where
  "item_guid c = change_id c @ '':'' @ str_int (py_int (timestamp c))"

definition item_desc :: "change \<Rightarrow> string" where
  "item_desc c = (case summary c of None \<Rightarrow> ''Content changed.'' | Some d \<Rightarrow> d)"

definition item_xml :: "env \<Rightarrow> real \<Rightarrow> change \<Rightarrow> string" where
  "item_xml env now c =
     ''  <item>'' @ nl @
     ''    <title>'' @ esc (item_title c) @ ''</title>'' @ nl @
     ''    <link>'' @ esc (item_link c) @ ''</link>'' @ nl @
     ''    <guid isPermaLink='' @ dq @ ''false'' @ dq @ ''>'' @ esc (item_guid c) @ ''</guid>'' @ nl @
     ''    <pubDate>'' @ rfc2822_now env now (Some (timestamp c)) @ ''</pubDate>'' @ nl @
     ''    <description>'' @ esc (item_desc c) @ ''</description>'' @ nl @
     ''  </item>''"

text \<open>Line 71: the changes that become items.\<close>

definition feed_changes :: "change list \<Rightarrow> change list" where
  "feed_changes cs = take 100 (sorted_desc cs)"

text \<open>Lines 76 to 105: the document for the changes chosen at line 71.\<close>

definition feed_document :: "env \<Rightarrow> real \<Rightarrow> change list \<Rightarrow> string" where
  "feed_document env now items =
     ''<?xml version='' @ dq @ ''1.0'' @ dq @ '' encoding='' @ dq @ ''UTF-8'' @ dq @ ''?>'' @ nl @
     ''<rss version='' @ dq @ ''2.0'' @ dq @ ''>'' @ nl @
     ''<channel>'' @ nl @
     ''  <title>Page Update Checker</title>'' @ nl @
     ''  <link></link>'' @ nl @
     ''  <description>RSS feed of diffs detected by the GitHub Actions watcher.</description>'' @ nl @
     ''  <lastBuildDate>'' @ rfc2822_now env now None @ ''</lastBuildDate>'' @ nl @
     join (linesep env) (map (item_xml env now) items) @ nl @
     ''</channel>'' @ nl @
     ''</rss>'' @ nl"

definition feed_xml :: "env \<Rightarrow> real \<Rightarrow> change list \<Rightarrow> string" where
  "feed_xml env now cs = feed_document env now (feed_changes cs)"

subsection \<open>The files and main\<close>

text \<open>The files of the program; \<open>None\<close> is a file that does not exist.\<close>

record world =
  urls_file :: "entry list option"
  state_file :: "(string \<rightharpoonup> target_state) option"
  changes_file :: "change list option"
  snapshot_files :: "string \<times> string \<rightharpoonup> string"
  index_file :: "string option"
  feed_file :: "string option"

definition load_json :: "'a option \<Rightarrow> 'a \<Rightarrow> 'a" where
  "load_json p dflt = (case p of None \<Rightarrow> dflt | Some v \<Rightarrow> v)"

definition index_html :: string where
  "index_html =
     ''<!doctype html><meta charset='' @ [CHR 0x27] @ ''utf-8'' @ [CHR 0x27] @ ''>'' @
     ''<title>Page Update Feed</title>'' @
     ''<h1>Page Update Feed</h1>'' @
     ''<p>Subscribe to the <a href='' @ [CHR 0x27] @ ''feed.xml'' @ [CHR 0x27] @
     ''>RSS feed</a>.</p>''"

definition ensure_index_html :: "world \<Rightarrow> world" where
  "ensure_index_html w =
     (case index_file w of None \<Rightarrow> w\<lparr>index_file := Some index_html\<rparr> | Some old \<Rightarrow> w)"

definition generate_feed :: "env \<Rightarrow> real \<Rightarrow> change list \<Rightarrow> world \<Rightarrow> world" where
  "generate_feed env now cs w = w\<lparr>feed_file := Some (feed_xml env now cs)\<rparr>"

text \<open>The state of the loop when it starts: lines 109 to 112.\<close>

definition initial_state :: "world \<Rightarrow> run_state" where
  "initial_state w =
     \<lparr>state = load_json (state_file w) Map.empty,
      changes = load_json (changes_file w) [],
      something_changed = False,
      snapshots = snapshot_files w\<rparr>"

definition run_loop :: "env \<Rightarrow> world \<Rightarrow> outcome \<times> run_state" where
  "run_loop env w = main_loop env 0 (load_json (urls_file w) []) (initial_state w)"

text \<open>
  \<open>main\<close>. The clock read for the feed is the reading after the last entry. A run that
  an exception ends has written the snapshots of the entries before it and nothing else.
\<close>

definition main :: "env \<Rightarrow> world \<Rightarrow> outcome \<times> world" where
  "main env w =
     (let now = time_time env (length (load_json (urls_file w) []))
      in case run_loop env w of
           (Aborted, s) \<Rightarrow> (Aborted, w\<lparr>snapshot_files := snapshots s\<rparr>)
         | (Completed, s) \<Rightarrow>
             (Completed,
              if something_changed s then
                (let kept = take 1000 (sorted_desc (changes s))
                 in generate_feed env now kept
                      (ensure_index_html
                         (w\<lparr>snapshot_files := snapshots s,
                            changes_file := Some kept,
                            state_file := Some (state s)\<rparr>)))
              else
                generate_feed env now (changes s)
                  (ensure_index_html (w\<lparr>snapshot_files := snapshots s\<rparr>))))"

text \<open>A sequence of runs, one environment for each; every run starts from the files the
  one before it left.\<close>

fun runs :: "env list \<Rightarrow> world \<Rightarrow> world" where
  "runs [] w = w"
| "runs (env # envs) w = runs envs (snd (main env w))"

subsection \<open>Notions used to state the properties\<close>

text \<open>The entity that stands for a character in escaped text.\<close>

definition esc_char :: "char \<Rightarrow> string" where
  "esc_char c =
     (if c = CHR ''&'' then ''&amp;''
      else if c = CHR ''<'' then ''&lt;''
      else if c = CHR ''>'' then ''&gt;''
      else [c])"

text \<open>A change log in descending order of timestamps.\<close>

definition descending :: "change list \<Rightarrow> bool" where
  "descending cs = sorted_wrt (\<lambda>a b. timestamp b \<le> timestamp a) cs"

text \<open>A change log file within the bound: absent, or at most 1000 records in descending order.\<close>

definition log_bounded :: "change list option \<Rightarrow> bool" where
  "log_bounded f = (case f of None \<Rightarrow> True | Some cs \<Rightarrow> length cs \<le> 1000 \<and> descending cs)"

text \<open>
  Collapsing runs, in the words of the description of the normaliser: every maximal run
  of characters of the class \<open>P\<close> becomes the one character \<open>r\<close>, every other character
  stays. A character of the class that is followed by another one is dropped, the last
  one of the run is replaced.
\<close>

fun spec_collapse :: "(char \<Rightarrow> bool) \<Rightarrow> char \<Rightarrow> string \<Rightarrow> string" where
  "spec_collapse P r [] = []"
| "spec_collapse P r [c] = [if P c then r else c]"
| "spec_collapse P r (c # d # cs) =
     (if P c \<and> P d then spec_collapse P r (d # cs)
      else (if P c then r else c) # spec_collapse P r (d # cs))"

text \<open>
  The texts of a tree that lie outside every element with one of the names \<open>hidden\<close>, in
  document order.
\<close>

fun spec_visible_strings :: "string list \<Rightarrow> node \<Rightarrow> string list" where
  "spec_visible_strings hidden (Text s) = [s]"
| "spec_visible_strings hidden (Tag n attrs children) =
     (if n \<in> set hidden then [] else concat (map (spec_visible_strings hidden) children))"

text \<open>A text in which the character \<open>c\<close> never follows itself.\<close>

definition no_double :: "char \<Rightarrow> string \<Rightarrow> bool" where
  "no_double c s = successively (\<lambda>a b. \<not> (a = c \<and> b = c)) s"

subsection \<open>Example data\<close>

text \<open>
  A stand-in for \<open>difflib.unified_diff\<close> with \<open>fromfile="before"\<close>, \<open>tofile="after"\<close> and
  \<open>lineterm=""\<close>: no line for equal texts, and otherwise what the library prints for two
  texts that share no line (the two file lines, one hunk header, every old line removed,
  every new line added).
\<close>

definition example_range :: "string list \<Rightarrow> string" where
  "example_range ls =
     (if length ls = 1 then ''1''
      else if ls = [] then ''0,0''
      else ''1,'' @ str_nat (length ls))"

definition example_diff :: "string list \<Rightarrow> string list \<Rightarrow> string list" where
  "example_diff a b =
     (if a = b then []
      else [''--- before'', ''+++ after'',
            ''@@ -'' @ example_range a @ '' +'' @ example_range b @ '' @@''] @
           map ((#) (CHR ''-'')) a @ map ((#) (CHR ''+'')) b)"

text \<open>A stand-in for the parser: one page with markup, any other input is one text.\<close>

definition example_page :: string where
  "example_page =
     ''<p>a   b</p>'' @ [CHR 0x0A, CHR 0x0A] @
     ''<script>x</script><template>t</template><p>c </p>''"

definition example_soup :: "string \<Rightarrow> node list" where
  "example_soup html =
     (if html = example_page
      then [Tag ''p'' [] [Text ''a   b''], Text [CHR 0x0A, CHR 0x0A],
            Tag ''script'' [] [Text ''x''], Tag ''template'' [] [Text ''t''],
            Tag ''p'' [] [Text ''c '']]
      else [Text html])"

text \<open>
  An environment in which every request returns the given response, no selector matches,
  the clock reads 200.5 at the first entry and one second more at each entry after it,
  and the hash of a text is the text itself.
\<close>

definition example_env :: "response \<Rightarrow> env" where
  "example_env resp =
     \<lparr>requests_get = (\<lambda>i url headers. Returns resp),
      time_time = (\<lambda>i. 200 + real i + 1 / 2),
      BeautifulSoup = example_soup,
      select_one = (\<lambda>selector soup. None),
      str_node = (\<lambda>n. []),
      sha256 = (\<lambda>text. text),
      unified_diff = example_diff,
      format_datetime = (\<lambda>t. str_int \<lfloor>t\<rfloor>),
      linesep = nl\<rparr>"


definition example_response :: "int \<Rightarrow> string \<Rightarrow> response" where
  "example_response code body =
     \<lparr>status_code = code, header_etag = Some ''v2'', header_last_modified = None,
      response_text = body\<rparr>"

definition example_entry :: entry where
  "example_entry =
     \<lparr>entry_id = ''a'', entry_url = ''https://example.com/x'', entry_title = None,
      entry_selector = None\<rparr>"

definition empty_state :: run_state where
  "empty_state =
     \<lparr>state = Map.empty, changes = [], something_changed = False, snapshots = Map.empty\<rparr>"

text \<open>The state after a first run that has seen the text \<open>old\<close> at time 100.\<close>

definition seen_state :: "string \<Rightarrow> run_state" where
  "seen_state old =
     \<lparr>state = [''a'' \<mapsto> \<lparr>hash = Some old, etag = Some ''v1'', last_modified = Some ''Mon'',
                            last_text_file = Some ''100.txt''\<rparr>],
      changes = [],
      something_changed = False,
      snapshots = [(''a'', ''100.txt'') \<mapsto> old]\<rparr>"

text \<open>The files before the first run: one entry to watch, nothing else.\<close>

definition example_world :: world where
  "example_world =
     \<lparr>urls_file = Some [example_entry], state_file = None, changes_file = None,
      snapshot_files = Map.empty, index_file = None, feed_file = None\<rparr>"

definition example_change :: "real \<Rightarrow> change" where
  "example_change ts =
     \<lparr>change_id = ''a'', change_url = ''https://example.com/x'', change_title = ''X'',
      timestamp = ts, change_hash = ''h'', summary = None\<rparr>"


section \<open>Properties\<close>

subsection \<open>The diff preview\<close>

lemma preview_loop_eq:
  "i \<le> 21 \<Longrightarrow> preview_loop i acc d =
     (if 21 < i + length d then acc @ take (21 - i) d @ [truncation_marker] else acc @ d)"
proof (induction d arbitrary: i acc)
  case Nil
  then show ?case by simp
next
  case (Cons x rest)
  show ?case
  proof (cases "20 < i")
    case True
    with Cons.prems have "i = 21" by simp
    then show ?thesis by simp
  next
    case False
    then have le: "Suc i \<le> 21" by simp
    have t: "take (21 - i) (x # rest) = x # take (21 - Suc i) rest"
    proof -
      from False have "21 - i = Suc (21 - Suc i)" by simp
      then show ?thesis by simp
    qed
    show ?thesis using False Cons.IH [OF le, of "acc @ [x]"] t by auto
  qed
qed

lemma preview_lines_eq:
  "preview_lines d = (if 21 < length d then take 21 d @ [truncation_marker] else d)"
  by (simp add: preview_lines_def preview_loop_eq)

lemma join_eq_Nil:
  "join sep xs = [] \<longleftrightarrow> xs = [] \<or> xs = [[]] \<or> (sep = [] \<and> set xs \<subseteq> {[]})"
  by (induction sep xs rule: join.induct) auto

lemma join_marker_nonempty: "join [CHR 0x0A] (xs @ [truncation_marker]) \<noteq> []"
proof -
  have "xs @ [truncation_marker] \<noteq> [[]]"
    by (cases xs) (auto simp: truncation_marker_def)
  then show ?thesis by (simp add: join_eq_Nil)
qed

text \<open>
  C5. A diff of more than 21 lines gives the preview of its first 21 lines followed by
  one marker line, and the summary is these 22 lines joined by line feeds. A diff of at
  most 21 lines is its own preview, with no marker, and the summary is the diff joined by
  line feeds whenever that text is not empty (an empty text is replaced by the fixed
  description, which is the subject of C6).
\<close>

theorem diff_truncation:
  "(21 < length d \<longrightarrow>
      preview_lines d = take 21 d @ [truncation_marker] \<and>
      summary_of_diff d = join [CHR 0x0A] (take 21 d @ [truncation_marker])) \<and>
   (length d \<le> 21 \<longrightarrow>
      preview_lines d = d \<and>
      (join [CHR 0x0A] d \<noteq> [] \<longrightarrow> summary_of_diff d = join [CHR 0x0A] d))"
  by (simp add: summary_of_diff_def preview_lines_eq join_marker_nonempty Let_def)

theorem diff_truncation_witness:
  "21 < length (replicate 22 ''x'') \<and>
   summary_of_diff (replicate 22 ''x'') =
     join [CHR 0x0A] (replicate 21 ''x'' @ [''... (diff truncated)'']) \<and>
   length [''--- before'', ''+++ after''] \<le> 21 \<and>
   join [CHR 0x0A] [''--- before'', ''+++ after''] \<noteq> [] \<and>
   summary_of_diff [''--- before'', ''+++ after''] =
     ''--- before'' @ [CHR 0x0A] @ ''+++ after''"
  using diff_truncation [of "replicate 22 ''x''"]
        diff_truncation [of "[''--- before'', ''+++ after'']"]
  by (simp add: truncation_marker_def)

subsection \<open>Escaping and guids in the feed\<close>

lemma replace_append: "replace c new (xs @ ys) = replace c new xs @ replace c new ys"
  by (simp add: replace_def)

lemma replace_concat: "replace c new (concat xss) = concat (map (replace c new) xss)"
  by (induction xss) (simp_all add: replace_append, simp add: replace_def)

lemma esc_single: "esc [c] = esc_char c"
  by (simp add: esc_def replace_def esc_char_def)

lemma esc_eq: "esc s = concat (map esc_char s)"
proof (induction s)
  case Nil
  show ?case by (simp add: esc_def replace_def)
next
  case (Cons c s)
  have "esc (c # s) = esc [c] @ esc s"
    by (simp add: esc_def replace_def)
  then show ?case using Cons by (simp add: esc_single)
qed

lemma esc_append: "esc (s @ t) = esc s @ esc t"
  by (simp add: esc_eq)

lemma esc_no_markup: "CHR ''<'' \<notin> set (esc s) \<and> CHR ''>'' \<notin> set (esc s)"
  by (induction s) (auto simp: esc_eq esc_char_def)

text \<open>
  C8. \<open>esc\<close> replaces every \<open>&\<close>, \<open><\<close> and \<open>>\<close> of its argument by the entity of the
  character and keeps every other character, so that escaped text holds no \<open><\<close> and no
  \<open>>\<close>; a text that contains \<open><script>\<close> is rendered with \<open>&lt;script&gt;\<close> in its place.
  The title, the link, the guid and the description of every item are written to the feed
  escaped in this way.
\<close>

theorem feed_escaping:
  "esc s = concat (map esc_char s) \<and>
   CHR ''<'' \<notin> set (esc s) \<and> CHR ''>'' \<notin> set (esc s) \<and>
   esc (s @ ''<script>'' @ t) = esc s @ ''&lt;script&gt;'' @ esc t \<and>
   item_xml env now c =
     ''  <item>'' @ nl @
     ''    <title>'' @ concat (map esc_char (change_title c @ '' changed'')) @ ''</title>'' @ nl @
     ''    <link>'' @ concat (map esc_char (change_url c)) @ ''</link>'' @ nl @
     ''    <guid isPermaLink='' @ dq @ ''false'' @ dq @ ''>'' @
        concat (map esc_char (item_guid c)) @ ''</guid>'' @ nl @
     ''    <pubDate>'' @ rfc2822_now env now (Some (timestamp c)) @ ''</pubDate>'' @ nl @
     ''    <description>'' @ concat (map esc_char (item_desc c)) @ ''</description>'' @ nl @
     ''  </item>''"
proof -
  have "esc ''<script>'' = ''&lt;script&gt;''"
    by (simp add: esc_eq esc_char_def)
  then have "esc (s @ ''<script>'' @ t) = esc s @ ''&lt;script&gt;'' @ esc t"
    by (simp only: esc_append)
  moreover have "item_xml env now c =
     ''  <item>'' @ nl @
     ''    <title>'' @ concat (map esc_char (change_title c @ '' changed'')) @ ''</title>'' @ nl @
     ''    <link>'' @ concat (map esc_char (change_url c)) @ ''</link>'' @ nl @
     ''    <guid isPermaLink='' @ dq @ ''false'' @ dq @ ''>'' @
        concat (map esc_char (item_guid c)) @ ''</guid>'' @ nl @
     ''    <pubDate>'' @ rfc2822_now env now (Some (timestamp c)) @ ''</pubDate>'' @ nl @
     ''    <description>'' @ concat (map esc_char (item_desc c)) @ ''</description>'' @ nl @
     ''  </item>''"
    unfolding item_xml_def esc_eq item_title_def item_link_def by (rule refl)
  ultimately show ?thesis using esc_eq esc_no_markup by blast
qed

lemma py_int_floor: "0 \<le> x \<Longrightarrow> py_int x = \<lfloor>x\<rfloor>"
  by (simp add: py_int_def)

text \<open>
  C10. The guid of an item is the target id, a colon and the integer part of the
  timestamp: \<open>int\<close> truncates towards zero, which is the floor for a timestamp at or after
  the epoch, as \<open>time.time()\<close> returns. Two change records of one target whose timestamps
  have the same floor get the same guid, so guids are not unique.
\<close>

theorem guid_integer_second:
  "(0 \<le> timestamp c \<longrightarrow>
      item_guid c = change_id c @ '':'' @ str_int \<lfloor>timestamp c\<rfloor>) \<and>
   (0 \<le> timestamp c \<and> 0 \<le> timestamp c' \<and> change_id c = change_id c' \<and>
    \<lfloor>timestamp c\<rfloor> = \<lfloor>timestamp c'\<rfloor> \<longrightarrow> item_guid c = item_guid c')"
  by (simp add: item_guid_def py_int_floor)

subsection \<open>The loop body\<close>

lemma snapshot_names_differ: "snapshot_name ts ''.txt'' \<noteq> snapshot_name ts ''.html''"
  by (simp add: snapshot_name_def)

lemma previous_None: "state s uid = None \<Longrightarrow> hash (previous s uid) = None"
  by (simp add: previous_def no_state_def)

text \<open>
  C1. When the response has a status from 200 to 299 and the hash of the normalised text
  differs from the stored hash, or no state is stored for the target, the loop body
  appends one change record for the target, writes the normalised text and the raw body
  as the two snapshot files of the timestamp, and stores the new hash, the validators of
  the response and the name of the new text snapshot as the state of the target.
\<close>

theorem change_recorded:
  assumes ok: "200 \<le> status_code resp" "status_code resp < 300"
    and uid: "uid = entry_id entry"
    and tx: "text = clean_html env (response_text resp) (entry_selector entry)"
    and h: "h = sha256 env text"
    and ts: "ts = time_time env i"
    and differs: "state s uid = None \<or> hash (previous s uid) \<noteq> Some h"
    and s': "s' = process_response env i entry resp s"
  shows "changes s' = changes s @
           [\<lparr>change_id = uid, change_url = entry_url entry,
             change_title = (case entry_title entry of None \<Rightarrow> entry_url entry | Some t \<Rightarrow> t),
             timestamp = ts, change_hash = h,
             summary = Some (make_summary (unified_diff env)
                               (read_old_text (snapshots s') uid (previous s uid)) text)\<rparr>] \<and>
         snapshots s' = (snapshots s)((uid, snapshot_name ts ''.txt'') \<mapsto> text,
                                     (uid, snapshot_name ts ''.html'') \<mapsto> response_text resp) \<and>
         snapshots s' (uid, snapshot_name ts ''.txt'') = Some text \<and>
         snapshots s' (uid, snapshot_name ts ''.html'') = Some (response_text resp) \<and>
         state s' = (state s)(uid \<mapsto>
           \<lparr>hash = Some h, etag = header_etag resp,
            last_modified = header_last_modified resp,
            last_text_file = Some (snapshot_name ts ''.txt'')\<rparr>) \<and>
         something_changed s' = True"
proof -
  from differs have d: "hash (previous s uid) \<noteq> Some h"
    using previous_None [of s uid] by auto
  from ok have n304: "status_code resp \<noteq> 304" by simp
  have eq: "s' = s\<lparr>state := (state s)(uid \<mapsto>
                          \<lparr>hash = Some h, etag = header_etag resp,
                           last_modified = header_last_modified resp,
                           last_text_file = Some (snapshot_name ts ''.txt'')\<rparr>),
                        changes := changes s @
                          [\<lparr>change_id = uid, change_url = entry_url entry,
                            change_title = (case entry_title entry of None \<Rightarrow> entry_url entry | Some t \<Rightarrow> t),
                            timestamp = ts, change_hash = h,
                            summary = Some (make_summary (unified_diff env)
                               (read_old_text ((snapshots s)((uid, snapshot_name ts ''.txt'') \<mapsto> text,
                                     (uid, snapshot_name ts ''.html'') \<mapsto> response_text resp)) uid (previous s uid)) text)\<rparr>],
                        something_changed := True,
                        snapshots := (snapshots s)((uid, snapshot_name ts ''.txt'') \<mapsto> text,
                                     (uid, snapshot_name ts ''.html'') \<mapsto> response_text resp)\<rparr>"
    using ok n304 d unfolding s' process_response_def Let_def uid tx h ts
    by simp
  show ?thesis
    by (simp add: eq snapshot_names_differ)
qed

text \<open>
  C3. For a response with status 304 or with a status outside 200 to 299 the loop body
  leaves the state, the change log, the snapshots and the change flag as they are, and
  the loop goes on with the next entry.
\<close>

theorem skipped_target:
  assumes "status_code resp = 304 \<or> \<not> (200 \<le> status_code resp \<and> status_code resp < 300)"
  shows "process_response env i entry resp s = s \<and>
         (fetch_with_conditionals env i (entry_url entry) (previous s (entry_id entry)) = Returns resp
            \<longrightarrow> main_loop env i (entry # rest) s = main_loop env (Suc i) rest s)"
proof -
  have "process_response env i entry resp s = s"
    using assms by (auto simp: process_response_def Let_def)
  then show ?thesis by simp
qed

text \<open>
  C4. When the hash of the normalised text equals the stored hash, the state of the
  target keeps its hash and its snapshot name; each validator becomes the value of the
  response header when the response supplies one (a header that is absent or empty
  supplies none) and is kept otherwise. The change log, the snapshots and the change flag
  are as before.
\<close>

theorem unchanged_target:
  assumes ok: "200 \<le> status_code resp" "status_code resp < 300"
    and uid: "uid = entry_id entry"
    and prev: "prev = previous s uid"
    and same: "hash prev = Some (sha256 env (clean_html env (response_text resp) (entry_selector entry)))"
    and s': "s' = process_response env i entry resp s"
  shows "state s' = (state s)(uid \<mapsto>
           \<lparr>hash = hash prev,
            etag = (case header_etag resp of
                      None \<Rightarrow> etag prev
                    | Some v \<Rightarrow> if v = [] then etag prev else Some v),
            last_modified = (case header_last_modified resp of
                      None \<Rightarrow> last_modified prev
                    | Some v \<Rightarrow> if v = [] then last_modified prev else Some v),
            last_text_file = last_text_file prev\<rparr>) \<and>
         changes s' = changes s \<and>
         snapshots s' = snapshots s \<and>
         something_changed s' = something_changed s"
proof -
  from ok have n304: "status_code resp \<noteq> 304" by simp
  have or_eq: "py_or a b = (case a of None \<Rightarrow> b | Some v \<Rightarrow> if v = [] then b else Some v)" for a b
    by (simp add: py_or_def truthy_def split: option.splits)
  have "s' = s\<lparr>state := (state s)(uid \<mapsto>
                     \<lparr>hash = hash prev,
                      etag = py_or (header_etag resp) (etag prev),
                      last_modified = py_or (header_last_modified resp) (last_modified prev),
                      last_text_file = last_text_file prev\<rparr>)\<rparr>"
    using ok n304 same unfolding s' process_response_def Let_def uid prev
    by simp
  then show ?thesis by (simp add: or_eq)
qed


lemmas example_defs =
  example_env_def example_response_def example_entry_def empty_state_def seen_state_def
  example_soup_def example_page_def example_diff_def example_range_def example_change_def

lemmas eval_defs =
  clean_html_def scoped_soup_def soup_text_def squeeze_def get_text_def removed_tags_def
  string_containers_def
  truthy_def py_or_def strip_def isspace_def is_blank_def is_newline_def is_linebreak_def
  previous_def no_state_def snapshot_name_def read_old_text_def make_summary_def
  summary_of_diff_def fallback_summary_def truncation_marker_def splitlines_def
  py_int_def str_int_def str_nat.simps nl_def dq_def

lemma example_clean_hello:
  "clean_html (example_env r) ''Hello'' None = ''Hello''"
  by (simp add: example_defs eval_defs)

theorem change_recorded_witness:
  "200 \<le> status_code (example_response 200 ''Hello'') \<and>
   status_code (example_response 200 ''Hello'') < 300 \<and>
   state empty_state ''a'' = None \<and>
   changes (process_response (example_env (example_response 200 ''Hello'')) 0 example_entry
              (example_response 200 ''Hello'') empty_state) =
     [\<lparr>change_id = ''a'', change_url = ''https://example.com/x'',
       change_title = ''https://example.com/x'', timestamp = 401 / 2,
       change_hash = ''Hello'', summary = Some ''Content changed.''\<rparr>] \<and>
   snapshots (process_response (example_env (example_response 200 ''Hello'')) 0 example_entry
              (example_response 200 ''Hello'') empty_state) (''a'', ''200.txt'') = Some ''Hello'' \<and>
   state (process_response (example_env (example_response 200 ''Hello'')) 0 example_entry
              (example_response 200 ''Hello'') empty_state) ''a'' =
     Some \<lparr>hash = Some ''Hello'', etag = Some ''v2'', last_modified = None,
           last_text_file = Some ''200.txt''\<rparr>"
proof -
  let ?r = "example_response 200 ''Hello''"
  let ?E = "example_env ?r"
  have a1: "200 \<le> status_code ?r" and a2: "status_code ?r < 300"
    by (simp_all add: example_defs)
  have a3: "state empty_state (entry_id example_entry) = None \<or>
            hash (previous empty_state (entry_id example_entry)) \<noteq>
              Some (sha256 ?E (clean_html ?E (response_text ?r) (entry_selector example_entry)))"
    by (simp add: example_defs)
  note T = change_recorded [OF a1 a2 refl refl refl refl a3 refl, of 0]
  have c: "clean_html ?E (response_text ?r) (entry_selector example_entry) = ''Hello''"
    using example_clean_hello [of ?r] by (simp add: example_defs)
  have ro: "read_old_text m (entry_id example_entry)
              (previous empty_state (entry_id example_entry)) = None" for m
    by (simp add: example_defs eval_defs)
  note T' = T [unfolded ro c]
  show ?thesis
    using T' a1 a2 by (simp add: example_defs eval_defs)
qed


theorem skipped_target_witness:
  "(status_code (example_response 304 []) = 304 \<or>
      \<not> (200 \<le> status_code (example_response 304 []) \<and>
         status_code (example_response 304 []) < 300)) \<and>
   fetch_with_conditionals (example_env (example_response 304 [])) 0 (entry_url example_entry)
       (previous (seen_state ''Hello'') (entry_id example_entry)) =
     Returns (example_response 304 []) \<and>
   main_loop (example_env (example_response 304 [])) 0 [example_entry] (seen_state ''Hello'') =
     (Completed, seen_state ''Hello'') \<and>
   (status_code (example_response 500 ''oops'') = 304 \<or>
      \<not> (200 \<le> status_code (example_response 500 ''oops'') \<and>
         status_code (example_response 500 ''oops'') < 300)) \<and>
   process_response (example_env (example_response 500 ''oops'')) 0 example_entry
       (example_response 500 ''oops'') (seen_state ''Hello'') = seen_state ''Hello''"
proof -
  let ?r = "example_response 304 []"
  let ?q = "example_response 500 ''oops''"
  have a: "status_code ?r = 304 \<or> \<not> (200 \<le> status_code ?r \<and> status_code ?r < 300)"
    by (simp add: example_defs)
  have b: "status_code ?q = 304 \<or> \<not> (200 \<le> status_code ?q \<and> status_code ?q < 300)"
    by (simp add: example_defs)
  have f: "fetch_with_conditionals (example_env ?r) 0 (entry_url example_entry)
             (previous (seen_state ''Hello'') (entry_id example_entry)) = Returns ?r"
    by (simp add: fetch_with_conditionals_def example_env_def Let_def)
  from skipped_target [OF a, of "example_env ?r" 0 example_entry "seen_state ''Hello''" "[]"] f
  have "main_loop (example_env ?r) 0 [example_entry] (seen_state ''Hello'') =
          (Completed, seen_state ''Hello'')"
    by simp
  moreover from skipped_target [OF b]
  have "process_response (example_env ?q) 0 example_entry ?q (seen_state ''Hello'') =
          seen_state ''Hello''"
    by blast
  ultimately show ?thesis using a b f by blast
qed

theorem unchanged_target_witness:
  "200 \<le> status_code (example_response 200 ''Hello'') \<and>
   status_code (example_response 200 ''Hello'') < 300 \<and>
   hash (previous (seen_state ''Hello'') ''a'') =
     Some (sha256 (example_env (example_response 200 ''Hello''))
             (clean_html (example_env (example_response 200 ''Hello'')) ''Hello'' None)) \<and>
   state (process_response (example_env (example_response 200 ''Hello'')) 0 example_entry
            (example_response 200 ''Hello'') (seen_state ''Hello'')) ''a'' =
     Some \<lparr>hash = Some ''Hello'', etag = Some ''v2'', last_modified = Some ''Mon'',
           last_text_file = Some ''100.txt''\<rparr> \<and>
   changes (process_response (example_env (example_response 200 ''Hello'')) 0 example_entry
            (example_response 200 ''Hello'') (seen_state ''Hello'')) = [] \<and>
   snapshots (process_response (example_env (example_response 200 ''Hello'')) 0 example_entry
            (example_response 200 ''Hello'') (seen_state ''Hello'')) =
     snapshots (seen_state ''Hello'')"
proof -
  let ?r = "example_response 200 ''Hello''"
  let ?E = "example_env ?r"
  have a1: "200 \<le> status_code ?r" and a2: "status_code ?r < 300"
    by (simp_all add: example_defs)
  have c: "clean_html ?E ''Hello'' None = ''Hello''"
    by (rule example_clean_hello)
  have a3: "hash (previous (seen_state ''Hello'') (entry_id example_entry)) =
            Some (sha256 ?E (clean_html ?E (response_text ?r) (entry_selector example_entry)))"
    using c by (simp add: example_defs previous_def)
  note T = unchanged_target [OF a1 a2 refl refl a3 refl, of 0]
  have a3': "hash (previous (seen_state ''Hello'') ''a'') =
     Some (sha256 ?E (clean_html ?E ''Hello'' None))"
    using a3 by (simp add: example_defs)
  show ?thesis
    using T a1 a2 a3' by (simp add: example_defs previous_def)
qed

theorem guid_integer_second_witness:
  "0 \<le> timestamp (example_change (401 / 4)) \<and>
   0 \<le> timestamp (example_change (403 / 4)) \<and>
   change_id (example_change (401 / 4)) = change_id (example_change (403 / 4)) \<and>
   \<lfloor>timestamp (example_change (401 / 4))\<rfloor> = \<lfloor>timestamp (example_change (403 / 4))\<rfloor> \<and>
   example_change (401 / 4) \<noteq> example_change (403 / 4) \<and>
   item_guid (example_change (401 / 4)) = ''a:100'' \<and>
   item_guid (example_change (403 / 4)) = ''a:100''"
proof -
  have f1: "\<lfloor>401 / 4 :: real\<rfloor> = 100" and f2: "\<lfloor>403 / 4 :: real\<rfloor> = 100"
    by simp_all
  have s: "str_int 100 = ''100''"
    by (simp add: str_int_def str_nat.simps)
  show ?thesis
    using guid_integer_second [of "example_change (401 / 4)" "example_change (403 / 4)"]
          guid_integer_second [of "example_change (403 / 4)" "example_change (401 / 4)"]
    by (simp add: example_change_def f1 f2 s)
qed

subsection \<open>The summary of a change\<close>

lemma process_response_changed:
  assumes "200 \<le> status_code resp" "status_code resp < 300"
    and "hash (previous s (entry_id entry)) \<noteq>
           Some (sha256 env (clean_html env (response_text resp) (entry_selector entry)))"
  shows "process_response env i entry resp s =
     s\<lparr>state := (state s)(entry_id entry \<mapsto>
          \<lparr>hash = Some (sha256 env (clean_html env (response_text resp) (entry_selector entry))),
           etag = header_etag resp,
           last_modified = header_last_modified resp,
           last_text_file = Some (snapshot_name (time_time env i) ''.txt'')\<rparr>),
        changes := changes s @
          [\<lparr>change_id = entry_id entry, change_url = entry_url entry,
            change_title = (case entry_title entry of None \<Rightarrow> entry_url entry | Some t \<Rightarrow> t),
            timestamp = time_time env i,
            change_hash = sha256 env (clean_html env (response_text resp) (entry_selector entry)),
            summary = Some (make_summary (unified_diff env)
               (read_old_text
                  ((snapshots s)
                     ((entry_id entry, snapshot_name (time_time env i) ''.txt'') \<mapsto>
                         clean_html env (response_text resp) (entry_selector entry),
                      (entry_id entry, snapshot_name (time_time env i) ''.html'') \<mapsto>
                         response_text resp))
                  (entry_id entry) (previous s (entry_id entry)))
               (clean_html env (response_text resp) (entry_selector entry)))\<rparr>],
        something_changed := True,
        snapshots := (snapshots s)
           ((entry_id entry, snapshot_name (time_time env i) ''.txt'') \<mapsto>
               clean_html env (response_text resp) (entry_selector entry),
            (entry_id entry, snapshot_name (time_time env i) ''.html'') \<mapsto>
               response_text resp)\<rparr>"
proof -
  from assms(1,2) have "status_code resp \<noteq> 304" by simp
  with assms show ?thesis
    unfolding process_response_def Let_def by simp
qed

lemma read_old_text_Some:
  "read_old_text snaps uid prev = Some old \<longleftrightarrow>
     (\<exists>f. last_text_file prev = Some f \<and> f \<noteq> [] \<and> snaps (uid, f) = Some old)"
  by (auto simp: read_old_text_def truthy_def split: option.splits)

lemma join_preview_nonempty:
  assumes "d \<noteq> []" "d \<noteq> [[]]"
  shows "join [CHR 0x0A] (preview_lines d) \<noteq> []"
proof (cases "21 < length d")
  case True
  then show ?thesis by (simp add: preview_lines_eq join_marker_nonempty)
next
  case False
  with assms show ?thesis by (simp add: preview_lines_eq join_eq_Nil)
qed

lemma make_summary_diff:
  assumes "old \<noteq> []" "diff (splitlines old) (splitlines text) = d" "d \<noteq> []" "d \<noteq> [[]]"
  shows "make_summary diff (Some old) text = join [CHR 0x0A] (preview_lines d)"
  using assms join_preview_nonempty [of d]
  by (simp add: make_summary_def summary_of_diff_def Let_def)

lemma make_summary_fallback:
  assumes "old_text = None \<or> old_text = Some [] \<or>
           (\<exists>old. old_text = Some old \<and>
              (diff (splitlines old) (splitlines text) = [] \<or>
               diff (splitlines old) (splitlines text) = [[]]))"
  shows "make_summary diff old_text text = fallback_summary"
  using assms
  by (auto simp: make_summary_def summary_of_diff_def Let_def preview_lines_eq)

text \<open>
  C6, as the program has it. For a detected change, the previous text is read when the
  stored snapshot name is set and the file of that name exists among the snapshots of the
  target (after the new snapshot is written). When the previous text is read and is not
  empty, and the unified diff of the previous and the new text has a line that is not
  empty, the summary of the change record is the preview of the diff, its lines joined by
  line feeds. The summary is the fixed description when no previous text is read, when
  the previous text is empty, and when the diff is empty.
\<close>

theorem change_summary:
  assumes ok: "200 \<le> status_code resp" "status_code resp < 300"
    and uid: "uid = entry_id entry"
    and tx: "text = clean_html env (response_text resp) (entry_selector entry)"
    and differs: "hash (previous s uid) \<noteq> Some (sha256 env text)"
    and s': "s' = process_response env i entry resp s"
    and ot: "old_text = read_old_text (snapshots s') uid (previous s uid)"
  shows "(old_text = Some old \<longleftrightarrow>
            (\<exists>f. last_text_file (previous s uid) = Some f \<and> f \<noteq> [] \<and>
                 snapshots s' (uid, f) = Some old)) \<and>
         (old_text = Some old \<and> old \<noteq> [] \<and>
          d = unified_diff env (splitlines old) (splitlines text) \<and> d \<noteq> [] \<and> d \<noteq> [[]] \<longrightarrow>
            summary (last (changes s')) = Some (join [CHR 0x0A] (preview_lines d))) \<and>
         (old_text = None \<or> old_text = Some [] \<or>
          (\<exists>old. old_text = Some old \<and>
             (unified_diff env (splitlines old) (splitlines text) = [] \<or>
              unified_diff env (splitlines old) (splitlines text) = [[]])) \<longrightarrow>
            summary (last (changes s')) = Some fallback_summary)"
proof -
  have d: "hash (previous s (entry_id entry)) \<noteq>
           Some (sha256 env (clean_html env (response_text resp) (entry_selector entry)))"
    using differs by (simp add: uid tx)
  note eq = process_response_changed [OF ok d, of i]
  have sm: "summary (last (changes s')) = Some (make_summary (unified_diff env) old_text text)"
    unfolding ot s' uid tx by (simp add: eq)
  show ?thesis
  proof (intro conjI impI)
    show "(old_text = Some old) =
            (\<exists>f. last_text_file (previous s uid) = Some f \<and> f \<noteq> [] \<and>
                 snapshots s' (uid, f) = Some old)"
      by (simp add: ot read_old_text_Some)
  next
    assume "old_text = Some old \<and> old \<noteq> [] \<and>
            d = unified_diff env (splitlines old) (splitlines text) \<and> d \<noteq> [] \<and> d \<noteq> [[]]"
    then show "summary (last (changes s')) = Some (join [CHR 0x0A] (preview_lines d))"
      using make_summary_diff [of old "unified_diff env" "text" d] by (auto simp: sm)
  next
    assume "old_text = None \<or> old_text = Some [] \<or>
            (\<exists>old. old_text = Some old \<and>
               (unified_diff env (splitlines old) (splitlines text) = [] \<or>
                unified_diff env (splitlines old) (splitlines text) = [[]]))"
    then show "summary (last (changes s')) = Some fallback_summary"
      using make_summary_fallback [of old_text "unified_diff env" "text"] by (auto simp: sm)
  qed
qed


lemma example_clean_hello_world:
  "clean_html (example_env r) ''Hello world'' None = ''Hello world''"
  by (simp add: example_defs eval_defs)

text \<open>
  C6 as stated fails for a previous snapshot that exists and is empty: the stored name
  resolves to the file, the diff against the new text \<open>Hello\<close> has four lines, and the
  summary is the fixed description.
\<close>

theorem change_summary_counterexample:
  "last_text_file (previous (seen_state []) ''a'') = Some ''100.txt'' \<and>
   snapshots (process_response (example_env (example_response 200 ''Hello'')) 0 example_entry
      (example_response 200 ''Hello'') (seen_state [])) (''a'', ''100.txt'') = Some [] \<and>
   unified_diff (example_env (example_response 200 ''Hello'')) (splitlines []) (splitlines ''Hello'') =
     [''--- before'', ''+++ after'', ''@@ -0,0 +1 @@'', ''+Hello''] \<and>
   summary (last (changes (process_response (example_env (example_response 200 ''Hello'')) 0
      example_entry (example_response 200 ''Hello'') (seen_state [])))) =
     Some ''Content changed.''"
proof -
  let ?r = "example_response 200 ''Hello''"
  let ?E = "example_env ?r"
  have a1: "200 \<le> status_code ?r" and a2: "status_code ?r < 300"
    by (simp_all add: example_defs)
  have c: "clean_html ?E (response_text ?r) (entry_selector example_entry) = ''Hello''"
    using example_clean_hello [of ?r] by (simp add: example_defs)
  have d: "hash (previous (seen_state []) (entry_id example_entry)) \<noteq>
           Some (sha256 ?E (clean_html ?E (response_text ?r) (entry_selector example_entry)))"
    unfolding c by (simp add: example_defs previous_def)
  note eq = process_response_changed [OF a1 a2 d, of 0, unfolded c]
  show ?thesis
    by (simp add: eq) (simp add: example_defs eval_defs)
qed

theorem change_summary_witness:
  "200 \<le> status_code (example_response 200 ''Hello world'') \<and>
   status_code (example_response 200 ''Hello world'') < 300 \<and>
   hash (previous (seen_state ''Hello'') ''a'') \<noteq>
     Some (sha256 (example_env (example_response 200 ''Hello world'')) ''Hello world'') \<and>
   read_old_text (snapshots (process_response (example_env (example_response 200 ''Hello world''))
        0 example_entry (example_response 200 ''Hello world'') (seen_state ''Hello'')))
      ''a'' (previous (seen_state ''Hello'') ''a'') = Some ''Hello'' \<and>
   summary (last (changes (process_response (example_env (example_response 200 ''Hello world''))
        0 example_entry (example_response 200 ''Hello world'') (seen_state ''Hello'')))) =
     Some (''--- before'' @ [CHR 0x0A] @ ''+++ after'' @ [CHR 0x0A] @ ''@@ -1 +1 @@'' @
           [CHR 0x0A] @ ''-Hello'' @ [CHR 0x0A] @ ''+Hello world'') \<and>
   read_old_text (snapshots (process_response (example_env (example_response 200 ''Hello world''))
        0 example_entry (example_response 200 ''Hello world'') empty_state))
      ''a'' (previous empty_state ''a'') = None \<and>
   summary (last (changes (process_response (example_env (example_response 200 ''Hello world''))
        0 example_entry (example_response 200 ''Hello world'') empty_state))) =
     Some ''Content changed.''"
proof -
  let ?r = "example_response 200 ''Hello world''"
  let ?E = "example_env ?r"
  let ?s = "seen_state ''Hello''"
  let ?s' = "process_response ?E 0 example_entry ?r ?s"
  let ?t' = "process_response ?E 0 example_entry ?r empty_state"
  have a1: "200 \<le> status_code ?r" and a2: "status_code ?r < 300"
    by (simp_all add: example_defs)
  have c: "clean_html ?E (response_text ?r) (entry_selector example_entry) = ''Hello world''"
    using example_clean_hello_world [of ?r] by (simp add: example_defs)
  have d1: "hash (previous ?s (entry_id example_entry)) \<noteq> Some (sha256 ?E ''Hello world'')"
    by (simp add: example_defs previous_def)
  have d2: "hash (previous empty_state (entry_id example_entry)) \<noteq>
            Some (sha256 ?E ''Hello world'')"
    by (simp add: example_defs previous_def no_state_def)
  have d1': "hash (previous ?s (entry_id example_entry)) \<noteq>
           Some (sha256 ?E (clean_html ?E (response_text ?r) (entry_selector example_entry)))"
    using d1 by (simp add: c)
  have d2': "hash (previous empty_state (entry_id example_entry)) \<noteq>
           Some (sha256 ?E (clean_html ?E (response_text ?r) (entry_selector example_entry)))"
    using d2 by (simp add: c)
  have o1: "read_old_text (snapshots ?s') (entry_id example_entry)
              (previous ?s (entry_id example_entry)) = Some ''Hello''"
    by (simp add: process_response_changed [OF a1 a2 d1', of 0, unfolded c])
       (simp add: example_defs eval_defs)
  have o2: "read_old_text (snapshots ?t') (entry_id example_entry)
              (previous empty_state (entry_id example_entry)) = None"
    by (simp add: process_response_changed [OF a1 a2 d2', of 0, unfolded c])
       (simp add: example_defs eval_defs)
  have df: "unified_diff ?E (splitlines ''Hello'') (splitlines ''Hello world'') =
              [''--- before'', ''+++ after'', ''@@ -1 +1 @@'', ''-Hello'', ''+Hello world'']"
    by (simp add: example_defs eval_defs)
  note T1 = change_summary [OF a1 a2 refl c [symmetric] d1 refl refl,
      of 0 "''Hello''"
         "[''--- before'', ''+++ after'', ''@@ -1 +1 @@'', ''-Hello'', ''+Hello world'']"]
  note T2 = change_summary [OF a1 a2 refl c [symmetric] d2 refl refl, of 0]
  from T1 o1 df have r1: "summary (last (changes ?s')) =
     Some (join [CHR 0x0A]
       (preview_lines [''--- before'', ''+++ after'', ''@@ -1 +1 @@'', ''-Hello'', ''+Hello world'']))"
    by simp
  from T2 o2 have r2: "summary (last (changes ?t')) = Some fallback_summary"
    by simp
  have e: "entry_id example_entry = ''a''" by (simp add: example_defs)
  show ?thesis
    using a1 a2 d1 o1 o2 r1 r2 unfolding e
    by (simp add: preview_lines_eq fallback_summary_def)
qed

subsection \<open>The change log and the feed of a run\<close>

lemma descending_sorted_desc: "descending (sorted_desc cs)"
proof -
  have "sorted (map (\<lambda>c. - timestamp c) (sort_key (\<lambda>c. - timestamp c) cs))"
    by (rule sorted_sort_key)
  then show ?thesis
    by (simp add: descending_def sorted_desc_def sorted_map)
qed

lemma descending_take: "descending cs \<Longrightarrow> descending (take n cs)"
  by (simp add: descending_def sorted_wrt_take)


lemma mset_sorted_desc: "mset (sorted_desc cs) = mset cs"
  by (simp add: sorted_desc_def)

lemma mset_take_drop: "mset (take n xs) + mset (drop n xs) = mset xs"
  by (metis append_take_drop_id mset_append)

lemma descending_split:
  assumes "descending cs"
  shows "\<forall>k \<in> set (take n cs). \<forall>d \<in> set (drop n cs). timestamp d \<le> timestamp k"
proof -
  from assms have "sorted_wrt (\<lambda>a b. timestamp b \<le> timestamp a) (take n cs @ drop n cs)"
    by (simp add: descending_def)
  then show ?thesis
    unfolding sorted_wrt_append by blast
qed


lemma changes_file_ensure_index [simp]:
  "changes_file (ensure_index_html w) = changes_file w"
  by (simp add: ensure_index_html_def split: option.splits)

lemma feed_file_generate [simp]:
  "feed_file (generate_feed env now cs w) = Some (feed_xml env now cs)"
  by (simp add: generate_feed_def)

lemma changes_file_generate [simp]:
  "changes_file (generate_feed env now cs w) = changes_file w"
  by (simp add: generate_feed_def)

lemma main_changed:
  assumes "run_loop env w = (Completed, s)" "something_changed s"
  shows "fst (main env w) = Completed"
    and "changes_file (snd (main env w)) = Some (take 1000 (sorted_desc (changes s)))"
    and "feed_file (snd (main env w)) =
           Some (feed_xml env (time_time env (length (load_json (urls_file w) [])))
                   (take 1000 (sorted_desc (changes s))))"
  using assms by (simp_all add: main_def Let_def)

lemma main_unchanged:
  assumes "run_loop env w = (Completed, s)" "\<not> something_changed s"
  shows "fst (main env w) = Completed"
    and "changes_file (snd (main env w)) = changes_file w"
    and "feed_file (snd (main env w)) =
           Some (feed_xml env (time_time env (length (load_json (urls_file w) []))) (changes s))"
  using assms by (simp_all add: main_def Let_def)

lemma main_aborted:
  assumes "run_loop env w = (Aborted, s)"
  shows "fst (main env w) = Aborted"
    and "changes_file (snd (main env w)) = changes_file w"
    and "feed_file (snd (main env w)) = feed_file w"
  using assms by (simp_all add: main_def Let_def)

lemma log_bounded_main: "log_bounded (changes_file w) \<Longrightarrow> log_bounded (changes_file (snd (main env w)))"
proof -
  assume b: "log_bounded (changes_file w)"
  obtain r s where rs: "run_loop env w = (r, s)" by (cases "run_loop env w")
  show ?thesis
  proof (cases r)
    case Aborted
    with rs b show ?thesis by (simp add: main_aborted)
  next
    case Completed
    show ?thesis
    proof (cases "something_changed s")
      case True
      with rs Completed show ?thesis
        by (simp add: main_changed log_bounded_def descending_take descending_sorted_desc)
    next
      case False
      with rs Completed b show ?thesis by (simp add: main_unchanged)
    qed
  qed
qed

lemma log_bounded_runs: "log_bounded (changes_file w) \<Longrightarrow> log_bounded (changes_file (runs envs w))"
  by (induction envs arbitrary: w) (simp_all add: log_bounded_main)

text \<open>
  C2. A run that completes with at least one change writes, as the change log, the first
  1000 records of the log in descending order of timestamp: at most 1000 records, in
  descending order, and no record left out is more recent than a record kept. A run that
  detects no change, or that an exception ends, leaves the file as it is. Hence a log
  file that is absent or within the bound is within the bound after any number of runs.
\<close>

theorem change_log_bound:
  "(run_loop env w = (Completed, s) \<and> something_changed s \<and>
    kept = take 1000 (sorted_desc (changes s)) \<and>
    dropped = drop 1000 (sorted_desc (changes s)) \<longrightarrow>
      changes_file (snd (main env w)) = Some kept \<and>
      length kept \<le> 1000 \<and>
      descending kept \<and>
      mset kept + mset dropped = mset (changes s) \<and>
      (\<forall>k \<in> set kept. \<forall>d \<in> set dropped. timestamp d \<le> timestamp k)) \<and>
   (run_loop env w = (Aborted, s) \<or>
    run_loop env w = (Completed, s) \<and> \<not> something_changed s \<longrightarrow>
      changes_file (snd (main env w)) = changes_file w) \<and>
   (log_bounded (changes_file w) \<longrightarrow> log_bounded (changes_file (runs envs w)))"
proof (intro conjI impI)
  assume a: "run_loop env w = (Completed, s) \<and> something_changed s \<and>
    kept = take 1000 (sorted_desc (changes s)) \<and>
    dropped = drop 1000 (sorted_desc (changes s))"
  then show "changes_file (snd (main env w)) = Some kept"
    by (simp add: main_changed)
  from a show "length kept \<le> 1000" by simp
  from a show "descending kept"
    by (simp add: descending_take descending_sorted_desc)
  from a show "mset kept + mset dropped = mset (changes s)"
    by (simp add: mset_take_drop mset_sorted_desc)
  from a show "\<forall>k \<in> set kept. \<forall>d \<in> set dropped. timestamp d \<le> timestamp k"
    using descending_split [OF descending_sorted_desc, of 1000 "changes s"] by simp
next
  assume "run_loop env w = (Aborted, s) \<or>
    run_loop env w = (Completed, s) \<and> \<not> something_changed s"
  then show "changes_file (snd (main env w)) = changes_file w"
    by (auto simp: main_aborted main_unchanged)
next
  assume "log_bounded (changes_file w)"
  then show "log_bounded (changes_file (runs envs w))"
    by (rule log_bounded_runs)
qed


lemma example_fetch: "fetch_with_conditionals (example_env r) i url prev = Returns r"
  by (simp add: fetch_with_conditionals_def example_env_def Let_def)

lemma example_initial_state: "initial_state example_world = empty_state"
  by (simp add: initial_state_def example_world_def empty_state_def load_json_def)

lemma example_run_loop:
  "run_loop (example_env r) example_world =
     (Completed, process_response (example_env r) 0 example_entry r empty_state)"
  by (simp add: run_loop_def example_initial_state example_fetch)
     (simp add: example_world_def load_json_def example_fetch)

lemma example_first_response:
  "process_response (example_env (example_response 200 ''Hello'')) 0 example_entry
     (example_response 200 ''Hello'') empty_state =
   \<lparr>state = [''a'' \<mapsto> \<lparr>hash = Some ''Hello'', etag = Some ''v2'', last_modified = None,
                          last_text_file = Some ''200.txt''\<rparr>],
    changes = [\<lparr>change_id = ''a'', change_url = ''https://example.com/x'',
                change_title = ''https://example.com/x'', timestamp = 401 / 2,
                change_hash = ''Hello'', summary = Some ''Content changed.''\<rparr>],
    something_changed = True,
    snapshots = [(''a'', ''200.txt'') \<mapsto> ''Hello'', (''a'', ''200.html'') \<mapsto> ''Hello'']\<rparr>"
proof -
  let ?r = "example_response 200 ''Hello''"
  let ?E = "example_env ?r"
  have a1: "200 \<le> status_code ?r" and a2: "status_code ?r < 300"
    by (simp_all add: example_defs)
  have c: "clean_html ?E (response_text ?r) (entry_selector example_entry) = ''Hello''"
    using example_clean_hello [of ?r] by (simp add: example_defs)
  have d: "hash (previous empty_state (entry_id example_entry)) \<noteq>
           Some (sha256 ?E (clean_html ?E (response_text ?r) (entry_selector example_entry)))"
    by (simp add: example_defs previous_def no_state_def)
  show ?thesis
    by (simp add: process_response_changed [OF a1 a2 d, of 0, unfolded c])
       (simp add: example_defs eval_defs)
qed

lemma example_skipped_response:
  "process_response (example_env (example_response 304 [])) 0 example_entry
     (example_response 304 []) empty_state = empty_state"
  by (simp add: process_response_def example_response_def Let_def)

theorem change_log_bound_witness:
  "run_loop (example_env (example_response 200 ''Hello'')) example_world =
     (Completed, process_response (example_env (example_response 200 ''Hello'')) 0 example_entry
        (example_response 200 ''Hello'') empty_state) \<and>
   something_changed (process_response (example_env (example_response 200 ''Hello'')) 0
        example_entry (example_response 200 ''Hello'') empty_state) \<and>
   changes_file (snd (main (example_env (example_response 200 ''Hello'')) example_world)) =
     Some [\<lparr>change_id = ''a'', change_url = ''https://example.com/x'',
            change_title = ''https://example.com/x'', timestamp = 401 / 2,
            change_hash = ''Hello'', summary = Some ''Content changed.''\<rparr>] \<and>
   run_loop (example_env (example_response 304 [])) example_world = (Completed, empty_state) \<and>
   \<not> something_changed empty_state \<and>
   changes_file (snd (main (example_env (example_response 304 [])) example_world)) = None \<and>
   log_bounded (changes_file example_world) \<and>
   log_bounded (changes_file
     (runs [example_env (example_response 200 ''Hello''), example_env (example_response 304 [])]
        example_world))"
proof -
  let ?r = "example_response 200 ''Hello''"
  let ?E = "example_env ?r"
  let ?s = "process_response ?E 0 example_entry ?r empty_state"
  let ?F = "example_env (example_response 304 [])"
  have l1: "run_loop ?E example_world = (Completed, ?s)"
    by (rule example_run_loop)
  have c1: "something_changed ?s"
    by (simp add: example_first_response)
  have l2: "run_loop ?F example_world = (Completed, empty_state)"
    by (simp add: example_run_loop example_skipped_response)
  have c2: "\<not> something_changed empty_state"
    by (simp add: empty_state_def)
  have b: "log_bounded (changes_file example_world)"
    by (simp add: log_bounded_def example_world_def)
  note T1 = change_log_bound [of ?E example_world ?s
      "take 1000 (sorted_desc (changes ?s))" "drop 1000 (sorted_desc (changes ?s))" "[?E, ?F]"]
  note T2 = change_log_bound [of ?F example_world empty_state "[]" "[]" "[]"]
  from T1 l1 c1 have k: "changes_file (snd (main ?E example_world)) =
      Some (take 1000 (sorted_desc (changes ?s)))"
    by blast
  from T1 b have r: "log_bounded (changes_file (runs [?E, ?F] example_world))"
    by blast
  from T2 l2 c2 have u: "changes_file (snd (main ?F example_world)) = changes_file example_world"
    by blast
  have v: "take 1000 (sorted_desc (changes ?s)) = changes ?s"
    by (simp add: example_first_response sorted_desc_def)
  show ?thesis
    using l1 c1 l2 c2 b r k u unfolding v
    by (simp add: example_first_response) (simp add: example_world_def)
qed




lemma run_loop_outcome:
  "fst (run_loop env w) = Completed \<or> fst (run_loop env w) = Aborted"
  by (cases "fst (run_loop env w)") auto






subsection \<open>The normaliser\<close>

lemma re_sub_run_head:
  "xs = [] \<or> \<not> P (hd xs) \<Longrightarrow>
     re_sub_run P m repl xs = [] \<or> \<not> P (hd (re_sub_run P m repl xs))"
  by (cases xs) auto

lemma dropWhile_head: "dropWhile P xs = [] \<or> \<not> P (hd (dropWhile P xs))"
  using hd_dropWhile [of P xs] by blast

lemma short_run:
  assumes "P c" "\<not> m \<le> length (takeWhile P (c # cs))" "m \<le> 2"
  shows "cs = [] \<or> \<not> P (hd cs)"
proof (cases cs)
  case Nil
  then show ?thesis by simp
next
  case (Cons d ds)
  show ?thesis
  proof (rule ccontr)
    assume "\<not> (cs = [] \<or> \<not> P (hd cs))"
    with Cons have "P d" by simp
    with assms(1) Cons have "2 \<le> length (takeWhile P (c # cs))" by simp
    with assms(2,3) show False by simp
  qed
qed

lemma re_sub_run_no_adjacent:
  "m \<le> 2 \<Longrightarrow> successively (\<lambda>a b. \<not> (P a \<and> P b)) (re_sub_run P m [r] t)"
proof (induction P m "[r]" t rule: re_sub_run.induct)
  case (1 P m)
  show ?case by simp
next
  case (2 P m c cs)
  show ?case
  proof (cases "P c \<and> m \<le> length (takeWhile P (c # cs))")
    case True
    from True 2 have ih: "successively (\<lambda>a b. \<not> (P a \<and> P b)) (re_sub_run P m [r] (dropWhile P cs))"
      by blast
    from re_sub_run_head [where xs = "dropWhile P cs" and P = P and m = m and repl = "[r]", OF dropWhile_head]
    have "re_sub_run P m [r] (dropWhile P cs) = [] \<or>
          \<not> P (hd (re_sub_run P m [r] (dropWhile P cs)))" .
    with ih True show ?thesis by (auto simp: successively_Cons)
  next
    case False
    from False 2 have ih: "successively (\<lambda>a b. \<not> (P a \<and> P b)) (re_sub_run P m [r] cs)"
      by blast
    show ?thesis
    proof (cases "P c")
      case True
      with False have "\<not> m \<le> length (takeWhile P (c # cs))" by blast
      from short_run [OF True this "2.prems"] have "cs = [] \<or> \<not> P (hd cs)" .
      from re_sub_run_head [where xs = cs and P = P and m = m and repl = "[r]", OF this]
        ih False show ?thesis
        by (auto simp: successively_Cons)
    next
      case nP: False
      with ih False show ?thesis by (auto simp: successively_Cons)
    qed
  qed
qed

lemma set_re_sub_run: "set (re_sub_run P m [r] t) \<subseteq> insert r (set t)"
proof (induction P m "[r]" t rule: re_sub_run.induct)
  case (1 P m)
  show ?case by simp
next
  case (2 P m c cs)
  have dw: "set (dropWhile P cs) \<subseteq> set cs"
    using set_dropWhileD by fastforce
  show ?case
  proof (cases "P c \<and> m \<le> length (takeWhile P (c # cs))")
    case True
    with 2 have "set (re_sub_run P m [r] (dropWhile P cs)) \<subseteq> insert r (set (dropWhile P cs))"
      by blast
    with dw have "set (re_sub_run P m [r] (dropWhile P cs)) \<subseteq> insert r (set cs)"
      by blast
    with True show ?thesis by auto
  next
    case False
    with 2 have "set (re_sub_run P m [r] cs) \<subseteq> insert r (set cs)" by blast
    with False show ?thesis by auto
  qed
qed

lemma set_re_sub_run_all:
  "set (re_sub_run P (Suc 0) [r] t) \<subseteq> insert r {x \<in> set t. \<not> P x}"
proof (induction P "Suc 0" "[r]" t rule: re_sub_run.induct)
  case (1 P)
  show ?case by simp
next
  case (2 P c cs)
  have dw: "set (dropWhile P cs) \<subseteq> set cs"
    using set_dropWhileD by fastforce
  show ?case
  proof (cases "P c")
    case True
    with 2 have "set (re_sub_run P (Suc 0) [r] (dropWhile P cs)) \<subseteq>
                 insert r {x \<in> set (dropWhile P cs). \<not> P x}"
      by simp
    with dw have "set (re_sub_run P (Suc 0) [r] (dropWhile P cs)) \<subseteq>
                 insert r {x \<in> set cs. \<not> P x}"
      by blast
    with True show ?thesis by auto
  next
    case False
    with 2 have "set (re_sub_run P (Suc 0) [r] cs) \<subseteq> insert r {x \<in> set cs. \<not> P x}"
      by simp
    with False show ?thesis by auto
  qed
qed

lemma re_sub_run_first:
  "cs \<noteq> [] \<Longrightarrow> re_sub_run P m [r] cs \<noteq> [] \<and>
     (hd (re_sub_run P m [r] cs) = r \<or> hd (re_sub_run P m [r] cs) = hd cs)"
  by (cases cs) auto

lemma successively_suffix: "successively R (xs @ ys) \<Longrightarrow> successively R ys"
  by (simp add: successively_append_iff)

lemma successively_dropWhile: "successively R xs \<Longrightarrow> successively R (dropWhile Q xs)"
  using successively_suffix [of R "takeWhile Q xs" "dropWhile Q xs"] by simp

lemma no_double_re_sub_run:
  "no_double c t \<Longrightarrow> r \<noteq> c \<Longrightarrow> no_double c (re_sub_run P m [r] t)"
proof (induction P m "[r]" t rule: re_sub_run.induct)
  case (1 P m)
  show ?case by (simp add: no_double_def)
next
  case (2 P m d ds)
  have tl: "no_double c ds"
    using "2.prems"(1) by (auto simp: no_double_def successively_Cons)
  show ?case
  proof (cases "P d \<and> m \<le> length (takeWhile P (d # ds))")
    case True
    from tl have "no_double c (dropWhile P ds)"
      by (simp add: no_double_def successively_dropWhile)
    with True 2 have "no_double c (re_sub_run P m [r] (dropWhile P ds))" by blast
    with True "2.prems"(2) show ?thesis
      by (auto simp: no_double_def successively_Cons)
  next
    case False
    with 2 tl have ih: "no_double c (re_sub_run P m [r] ds)" by blast
    show ?thesis
    proof (cases ds)
      case Nil
      with False show ?thesis by (simp add: no_double_def)
    next
      case (Cons e es)
      then have ne: "ds \<noteq> []" by simp
      from "2.prems"(1) Cons have pair: "\<not> (d = c \<and> hd ds = c)"
        by (auto simp: no_double_def successively_Cons)
      from re_sub_run_first [OF ne, of P m r] pair "2.prems"(2) ih False
      show ?thesis
        by (auto simp: no_double_def successively_Cons)
    qed
  qed
qed

lemma filter_dropWhile_other:
  "(\<And>x. P x \<Longrightarrow> \<not> Q x) \<Longrightarrow> filter Q (dropWhile P xs) = filter Q xs"
  by (induction xs) auto

lemma filter_re_sub_run:
  assumes "\<And>x. P x \<Longrightarrow> isspace x" "isspace r"
  shows "filter (\<lambda>x. \<not> isspace x) (re_sub_run P m [r] t) = filter (\<lambda>x. \<not> isspace x) t"
  using assms
proof (induction P m "[r]" t rule: re_sub_run.induct)
  case (1 P m)
  show ?case by simp
next
  case (2 P m c cs)
  have dw: "filter (\<lambda>x. \<not> isspace x) (dropWhile P cs) = filter (\<lambda>x. \<not> isspace x) cs"
    by (rule filter_dropWhile_other) (simp add: "2.prems"(1))
  show ?case
  proof (cases "P c \<and> m \<le> length (takeWhile P (c # cs))")
    case True
    with 2 have "filter (\<lambda>x. \<not> isspace x) (re_sub_run P m [r] (dropWhile P cs)) =
                 filter (\<lambda>x. \<not> isspace x) (dropWhile P cs)"
      by blast
    moreover from True have "P c" and "m \<le> Suc (length (takeWhile P cs))" by auto
    ultimately show ?thesis using dw "2.prems" by simp
  next
    case False
    with 2 have "filter (\<lambda>x. \<not> isspace x) (re_sub_run P m [r] cs) =
                 filter (\<lambda>x. \<not> isspace x) cs"
      by blast
    with False show ?thesis by auto
  qed
qed

lemma no_double_sym: "(\<lambda>x y. \<not> (y = c \<and> x = c)) = (\<lambda>a b. \<not> (a = c \<and> b = c))"
  by auto

lemma no_double_strip: "no_double c s \<Longrightarrow> no_double c (strip s)"
  by (simp add: no_double_def strip_def successively_dropWhile no_double_sym)

lemma set_strip: "set (strip s) \<subseteq> set s"
proof -
  have "set (dropWhile isspace (rev (dropWhile isspace s))) \<subseteq> set (rev (dropWhile isspace s))"
    using set_dropWhileD by fastforce
  moreover have "set (dropWhile isspace s) \<subseteq> set s"
    using set_dropWhileD by fastforce
  ultimately show ?thesis by (auto simp: strip_def)
qed

lemma last_dropWhile: "dropWhile P xs \<noteq> [] \<Longrightarrow> last (dropWhile P xs) = last xs"
  by (induction xs) (auto split: if_splits)

lemma dropWhile_rev_nonempty: "dropWhile P (rev xs) \<noteq> [] \<Longrightarrow> xs \<noteq> []"
  by auto

lemma strip_ends: "strip s = [] \<or> (\<not> isspace (hd (strip s)) \<and> \<not> isspace (last (strip s)))"
proof (cases "strip s = []")
  case True
  then show ?thesis by simp
next
  case False
  let ?t = "dropWhile isspace s"
  let ?u = "dropWhile isspace (rev ?t)"
  from False have u: "?u \<noteq> []" by (simp add: strip_def)
  then have t: "?t \<noteq> []" by (rule dropWhile_rev_nonempty)
  have "last (strip s) = hd ?u"
    using u by (simp add: strip_def last_rev)
  moreover have "\<not> isspace (hd ?u)"
    using u by (rule hd_dropWhile)
  moreover have "hd (strip s) = last ?u"
    using u by (simp add: strip_def hd_rev)
  moreover have "last ?u = last (rev ?t)"
    using u by (rule last_dropWhile)
  moreover have "last (rev ?t) = hd ?t"
    using t by (simp add: last_rev)
  moreover have "\<not> isspace (hd ?t)"
    using t by (rule hd_dropWhile)
  ultimately show ?thesis by simp
qed

lemma filter_strip: "filter (\<lambda>x. \<not> isspace x) (strip s) = filter (\<lambda>x. \<not> isspace x) s"
proof -
  have "filter (\<lambda>x. \<not> isspace x) (strip s) =
        rev (filter (\<lambda>x. \<not> isspace x) (dropWhile isspace (rev (dropWhile isspace s))))"
    by (simp add: strip_def rev_filter)
  also have "\<dots> = rev (filter (\<lambda>x. \<not> isspace x) (rev (dropWhile isspace s)))"
    by (simp add: filter_dropWhile_other)
  also have "\<dots> = filter (\<lambda>x. \<not> isspace x) (dropWhile isspace s)"
    by (simp add: rev_filter)
  also have "\<dots> = filter (\<lambda>x. \<not> isspace x) s"
    by (simp add: filter_dropWhile_other)
  finally show ?thesis .
qed

lemma blank_isspace: "is_blank x \<Longrightarrow> isspace x"
  by (auto simp: is_blank_def isspace_def)

lemma newline_isspace: "is_newline x \<Longrightarrow> isspace x"
  by (auto simp: is_newline_def isspace_def)

lemma squeeze_no_tab: "CHR 0x09 \<notin> set (squeeze t)"
proof -
  let ?a = "re_sub_run is_blank 1 '' '' t"
  have "set ?a \<subseteq> insert (CHR '' '') {x \<in> set t. \<not> is_blank x}"
    using set_re_sub_run_all [of is_blank "CHR '' ''" t] by simp
  then have "CHR 0x09 \<notin> set ?a" by (auto simp: is_blank_def)
  moreover have "set (re_sub_run is_newline 2 [CHR 0x0A] ?a) \<subseteq> insert (CHR 0x0A) (set ?a)"
    by (rule set_re_sub_run)
  ultimately have "CHR 0x09 \<notin> set (re_sub_run is_newline 2 [CHR 0x0A] ?a)" by auto
  then show ?thesis using set_strip unfolding squeeze_def by blast
qed

lemma squeeze_no_double_space: "no_double (CHR '' '') (squeeze t)"
proof -
  let ?a = "re_sub_run is_blank 1 '' '' t"
  have "successively (\<lambda>a b. \<not> (is_blank a \<and> is_blank b)) ?a"
    by (rule re_sub_run_no_adjacent) simp
  then have "no_double (CHR '' '') ?a"
    unfolding no_double_def
    by (rule successively_mono) (auto simp: is_blank_def)
  then have "no_double (CHR '' '') (re_sub_run is_newline 2 [CHR 0x0A] ?a)"
    by (rule no_double_re_sub_run) simp
  then show ?thesis unfolding squeeze_def by (rule no_double_strip)
qed

lemma squeeze_no_double_newline: "no_double (CHR 0x0A) (squeeze t)"
proof -
  let ?a = "re_sub_run is_blank 1 '' '' t"
  have "successively (\<lambda>a b. \<not> (is_newline a \<and> is_newline b))
          (re_sub_run is_newline 2 [CHR 0x0A] ?a)"
    by (rule re_sub_run_no_adjacent) simp
  then have "no_double (CHR 0x0A) (re_sub_run is_newline 2 [CHR 0x0A] ?a)"
    unfolding no_double_def
    by (rule successively_mono) (auto simp: is_newline_def)
  then show ?thesis unfolding squeeze_def by (rule no_double_strip)
qed

lemma squeeze_keeps_content:
  "filter (\<lambda>x. \<not> isspace x) (squeeze t) = filter (\<lambda>x. \<not> isspace x) t"
proof -
  have sp: "isspace (CHR '' '')" and lf: "isspace (CHR 0x0A)"
    by (simp_all add: isspace_def)
  show ?thesis
    unfolding squeeze_def
    by (simp add: filter_strip filter_re_sub_run [OF newline_isspace lf]
                  filter_re_sub_run [OF blank_isspace sp])
qed

lemma decompose_no_names:
  "set (concat (map tag_names (decompose names n))) \<inter> set names = {}"
proof (induction names n rule: decompose.induct)
  case (1 names s)
  show ?case by simp
next
  case (2 names n attrs children)
  show ?case
  proof (cases "n \<in> set names")
    case True
    then show ?thesis by simp
  next
    case False
    with 2 have "\<forall>c \<in> set children.
        set (concat (map tag_names (decompose names c))) \<inter> set names = {}"
      by blast
    with False show ?thesis by auto
  qed
qed

lemma pruned_no_names:
  "set (concat (map tag_names (concat (map (decompose names) soup)))) \<inter> set names = {}"
  using decompose_no_names [of names] by auto

lemma decompose_id:
  "set (tag_names n) \<inter> set names = {} \<Longrightarrow> decompose names n = [n]"
proof (induction names n rule: decompose.induct)
  case (1 names s)
  show ?case by simp
next
  case (2 names n attrs children)
  from "2.prems" have nn: "n \<notin> set names" by auto
  have "\<forall>c \<in> set children. decompose names c = [c]"
  proof
    fix c assume c: "c \<in> set children"
    with "2.prems" have "set (tag_names c) \<inter> set names = {}" by auto
    with 2 nn c show "decompose names c = [c]" by blast
  qed
  then have "concat (map (decompose names) children) = children"
    by (induction children) auto
  with nn show ?case by simp
qed

lemma scoped_soup_Some:
  "scoped_soup env html selector = Some soup \<longleftrightarrow>
     (if truthy selector
      then \<exists>target. select_one env (the selector) (BeautifulSoup env html) = Some target \<and>
                    soup = BeautifulSoup env (str_node env target)
      else soup = BeautifulSoup env html)"
  by (auto simp: scoped_soup_def Let_def split: option.splits)

lemma spec_collapse_run:
  "P c \<Longrightarrow> spec_collapse P r (c # cs) = r # spec_collapse P r (dropWhile P cs)"
proof (induction cs arbitrary: c)
  case Nil
  then show ?case by simp
next
  case (Cons d ds)
  show ?case
  proof (cases "P d")
    case True
    with Cons.prems Cons.IH [of d] show ?thesis by simp
  next
    case False
    with Cons.prems show ?thesis by simp
  qed
qed

lemma spec_collapse_other:
  "\<not> P c \<Longrightarrow> spec_collapse P r (c # cs) = c # spec_collapse P r cs"
  by (cases cs) simp_all

lemma dropWhile_short_run: "xs = [] \<or> \<not> P (hd xs) \<Longrightarrow> dropWhile P xs = xs"
  by (cases xs) auto

lemma re_sub_run_collapse:
  "m \<le> 1 \<or> (m \<le> 2 \<and> (\<forall>c. P c \<longrightarrow> c = r)) \<Longrightarrow>
     re_sub_run P m [r] t = spec_collapse P r t"
proof (induction P m "[r]" t rule: re_sub_run.induct)
  case (1 P m)
  show ?case by simp
next
  case (2 P m c cs)
  show ?case
  proof (cases "P c \<and> m \<le> length (takeWhile P (c # cs))")
    case True
    with 2 have "re_sub_run P m [r] (dropWhile P cs) = spec_collapse P r (dropWhile P cs)"
      by blast
    moreover from True have "P c" and "m \<le> Suc (length (takeWhile P cs))" by auto
    ultimately show ?thesis by (simp add: spec_collapse_run)
  next
    case False
    with 2 have ih: "re_sub_run P m [r] cs = spec_collapse P r cs" by blast
    show ?thesis
    proof (cases "P c")
      case nP: False
      with ih show ?thesis by (simp add: spec_collapse_other)
    next
      case True
      with False have short: "\<not> m \<le> length (takeWhile P (c # cs))" by blast
      with True have "\<not> m \<le> 1" by simp
      with "2.prems" have m2: "m \<le> 2" and eq: "c = r" using True by auto
      from short_run [OF True short m2] have "dropWhile P cs = cs"
        by (rule dropWhile_short_run)
      with True ih False eq show ?thesis by (simp add: spec_collapse_run)
    qed
  qed
qed

lemma squeeze_eq:
  "squeeze t =
     strip (spec_collapse is_newline (CHR 0x0A) (spec_collapse is_blank (CHR '' '') t))"
proof -
  have a: "re_sub_run is_blank 1 '' '' t = spec_collapse is_blank (CHR '' '') t"
    by (rule re_sub_run_collapse) simp
  have b: "re_sub_run is_newline 2 [CHR 0x0A] u = spec_collapse is_newline (CHR 0x0A) u" for u
    by (rule re_sub_run_collapse) (simp add: is_newline_def)
  show ?thesis unfolding squeeze_def a b by (rule refl)
qed

lemma strip_split:
  "\<exists>pre suf. s = pre @ strip s @ suf \<and>
     (\<forall>c \<in> set pre. isspace c) \<and> (\<forall>c \<in> set suf. isspace c)"
proof -
  let ?t = "dropWhile isspace s"
  have 1: "s = takeWhile isspace s @ ?t" by simp
  have "?t = rev (takeWhile isspace (rev ?t) @ dropWhile isspace (rev ?t))"
    by (simp only: takeWhile_dropWhile_id rev_rev_ident)
  also have "\<dots> = rev (dropWhile isspace (rev ?t)) @ rev (takeWhile isspace (rev ?t))"
    by (simp only: rev_append)
  finally have 2: "?t = strip s @ rev (takeWhile isspace (rev ?t))"
    by (simp only: strip_def)
  have 3: "\<forall>c \<in> set (takeWhile isspace s). isspace c"
    by (auto dest: set_takeWhileD)
  have 4: "\<forall>c \<in> set (rev (takeWhile isspace (rev ?t))). isspace c"
    by (auto dest: set_takeWhileD)
  from 1 2 have "s = takeWhile isspace s @ strip s @ rev (takeWhile isspace (rev ?t))"
    by simp
  with 3 4 show ?thesis by blast
qed

lemma strings_decompose_list:
  "\<forall>c \<in> set cs. concat (map strings (decompose names c)) = f c \<Longrightarrow>
     concat (map strings (concat (map (decompose names) cs))) = concat (map f cs)"
  by (induction cs) simp_all

lemma strings_decompose:
  "concat (map strings (decompose names n)) =
     spec_visible_strings (names @ string_containers) n"
proof (induction names n rule: decompose.induct)
  case (1 names s)
  show ?case by simp
next
  case (2 names n attrs children)
  show ?case
  proof (cases "n \<in> set names")
    case True
    then show ?thesis by simp
  next
    case False
    with 2 have "\<forall>c \<in> set children. concat (map strings (decompose names c)) =
        spec_visible_strings (names @ string_containers) c"
      by blast
    then have "concat (map strings (concat (map (decompose names) children))) =
        concat (map (spec_visible_strings (names @ string_containers)) children)"
      by (rule strings_decompose_list)
    with False show ?thesis by simp
  qed
qed

lemma soup_text_eq:
  "soup_text soup =
     join [CHR 0x0A]
       (concat (map (spec_visible_strings (removed_tags @ string_containers)) soup))"
proof -
  have "concat (map strings (concat (map (decompose removed_tags) soup))) =
        concat (map (spec_visible_strings (removed_tags @ string_containers)) soup)"
    by (rule strings_decompose_list) (simp add: strings_decompose)
  then show ?thesis
    by (simp add: soup_text_def get_text_def)
qed

text \<open>
  C7, as the program has it. When a selector is given and matches nothing, the
  normalised text is empty. Otherwise the soup is the document, or the matched element
  parsed again; the text taken from it is the texts outside every \<open>script\<close>, \<open>style\<close> and
  \<open>noscript\<close> element (and outside the elements whose text \<open>get_text\<close> leaves out), joined
  by line feeds. In that text every run of spaces and tabs is collapsed to one space, then
  every run of line feeds to one line feed, and the result is what is left when the white
  space at the start and at the end is taken away. So the result holds no tab, no two
  adjacent spaces, no two adjacent line feeds and no white space at its start or end, and
  its characters that are not white space are those of the text taken, in order.
\<close>

theorem normaliser_output:
  "(truthy selector \<and> select_one env (the selector) (BeautifulSoup env html) = None \<longrightarrow>
      clean_html env html selector = []) \<and>
   (scoped_soup env html selector = Some soup \<and>
    raw = join [CHR 0x0A]
            (concat (map (spec_visible_strings (removed_tags @ string_containers)) soup)) \<and>
    collapsed = spec_collapse is_newline (CHR 0x0A) (spec_collapse is_blank (CHR '' '') raw) \<and>
    out = clean_html env html selector \<longrightarrow>
      (if truthy selector
       then \<exists>target. select_one env (the selector) (BeautifulSoup env html) = Some target \<and>
                     soup = BeautifulSoup env (str_node env target)
       else soup = BeautifulSoup env html) \<and>
      (\<exists>pre suf. collapsed = pre @ out @ suf \<and>
         (\<forall>c \<in> set pre. isspace c) \<and> (\<forall>c \<in> set suf. isspace c)) \<and>
      (out = [] \<or> \<not> isspace (hd out) \<and> \<not> isspace (last out)) \<and>
      CHR 0x09 \<notin> set out \<and>
      no_double (CHR '' '') out \<and>
      no_double (CHR 0x0A) out \<and>
      filter (\<lambda>c. \<not> isspace c) out = filter (\<lambda>c. \<not> isspace c) raw)"
proof (intro conjI impI)
  assume "truthy selector \<and> select_one env (the selector) (BeautifulSoup env html) = None"
  then show "clean_html env html selector = []"
    by (simp add: clean_html_def scoped_soup_def Let_def)
next
  assume a: "scoped_soup env html selector = Some soup \<and>
    raw = join [CHR 0x0A]
            (concat (map (spec_visible_strings (removed_tags @ string_containers)) soup)) \<and>
    collapsed = spec_collapse is_newline (CHR 0x0A) (spec_collapse is_blank (CHR '' '') raw) \<and>
    out = clean_html env html selector"
  then have sc: "scoped_soup env html selector = Some soup"
    and raw: "raw = soup_text soup"
    and col: "collapsed = spec_collapse is_newline (CHR 0x0A) (spec_collapse is_blank (CHR '' '') raw)"
    by (simp_all add: soup_text_eq)
  from a sc have out: "out = squeeze raw"
    by (simp add: clean_html_def raw)
  have os: "out = strip collapsed"
    by (simp add: out col squeeze_eq)
  from sc show "if truthy selector
       then \<exists>target. select_one env (the selector) (BeautifulSoup env html) = Some target \<and>
                     soup = BeautifulSoup env (str_node env target)
       else soup = BeautifulSoup env html"
    by (simp only: scoped_soup_Some)
  show "\<exists>pre suf. collapsed = pre @ out @ suf \<and>
         (\<forall>c \<in> set pre. isspace c) \<and> (\<forall>c \<in> set suf. isspace c)"
    unfolding os by (rule strip_split)
  show "out = [] \<or> \<not> isspace (hd out) \<and> \<not> isspace (last out)"
    unfolding os by (rule strip_ends)
  show "CHR 0x09 \<notin> set out" unfolding out by (rule squeeze_no_tab)
  show "no_double (CHR '' '') out" unfolding out by (rule squeeze_no_double_space)
  show "no_double (CHR 0x0A) out" unfolding out by (rule squeeze_no_double_newline)
  show "filter (\<lambda>c. \<not> isspace c) out = filter (\<lambda>c. \<not> isspace c) raw"
    unfolding out by (rule squeeze_keeps_content)
qed

lemma example_clean_page:
  "clean_html (example_env r) example_page None = ''a b'' @ [CHR 0x0A] @ ''c''"
  by (simp add: example_defs eval_defs)

text \<open>
  C7 as stated fails for blank lines that hold white space: a line of one space between
  two lines of text separates two line feeds, so no run of line feeds is there to
  collapse, and the blank line stays in the result.
\<close>

theorem normaliser_output_counterexample:
  "clean_html (example_env (example_response 200 []))
      (''a'' @ [CHR 0x0A] @ '' '' @ [CHR 0x0A] @ ''b'') None =
     ''a'' @ [CHR 0x0A] @ '' '' @ [CHR 0x0A] @ ''b'' \<and>
   splitlines (''a'' @ [CHR 0x0A] @ '' '' @ [CHR 0x0A] @ ''b'') = [''a'', '' '', ''b''] \<and>
   isspace (CHR '' '')"
  by (simp add: example_defs eval_defs)


theorem normaliser_output_witness:
  "truthy (Some ''#main'') \<and>
   select_one (example_env (example_response 200 example_page)) (the (Some ''#main''))
     (BeautifulSoup (example_env (example_response 200 example_page)) example_page) = None \<and>
   clean_html (example_env (example_response 200 example_page)) example_page (Some ''#main'') = [] \<and>
   scoped_soup (example_env (example_response 200 example_page)) example_page None =
     Some [Tag ''p'' [] [Text ''a   b''], Text [CHR 0x0A, CHR 0x0A],
           Tag ''script'' [] [Text ''x''], Tag ''template'' [] [Text ''t''],
           Tag ''p'' [] [Text ''c '']] \<and>
   join [CHR 0x0A] (concat (map (spec_visible_strings (removed_tags @ string_containers))
     [Tag ''p'' [] [Text ''a   b''], Text [CHR 0x0A, CHR 0x0A],
      Tag ''script'' [] [Text ''x''], Tag ''template'' [] [Text ''t''],
      Tag ''p'' [] [Text ''c '']])) =
     ''a   b'' @ [CHR 0x0A, CHR 0x0A, CHR 0x0A, CHR 0x0A] @ ''c '' \<and>
   spec_collapse is_newline (CHR 0x0A) (spec_collapse is_blank (CHR '' '')
     (''a   b'' @ [CHR 0x0A, CHR 0x0A, CHR 0x0A, CHR 0x0A] @ ''c '')) =
     ''a b'' @ [CHR 0x0A] @ ''c '' \<and>
   clean_html (example_env (example_response 200 example_page)) example_page None =
     ''a b'' @ [CHR 0x0A] @ ''c'' \<and>
   no_double (CHR '' '') (''a b'' @ [CHR 0x0A] @ ''c'') \<and>
   no_double (CHR 0x0A) (''a b'' @ [CHR 0x0A] @ ''c'')"
proof -
  let ?E = "example_env (example_response 200 example_page)"
  let ?soup = "[Tag ''p'' [] [Text ''a   b''], Text [CHR 0x0A, CHR 0x0A],
                Tag ''script'' [] [Text ''x''], Tag ''template'' [] [Text ''t''],
                Tag ''p'' [] [Text ''c '']]"
  have h1: "truthy (Some ''#main'') \<and>
            select_one ?E (the (Some ''#main'')) (BeautifulSoup ?E example_page) = None"
    by (simp add: truthy_def example_env_def)
  have h2: "scoped_soup ?E example_page None = Some ?soup"
    by (simp add: scoped_soup_def truthy_def example_env_def example_soup_def)
  have h3: "join [CHR 0x0A]
      (concat (map (spec_visible_strings (removed_tags @ string_containers)) ?soup)) =
      ''a   b'' @ [CHR 0x0A, CHR 0x0A, CHR 0x0A, CHR 0x0A] @ ''c ''"
    by (simp add: removed_tags_def string_containers_def)
  have h4: "spec_collapse is_newline (CHR 0x0A) (spec_collapse is_blank (CHR '' '')
      (''a   b'' @ [CHR 0x0A, CHR 0x0A, CHR 0x0A, CHR 0x0A] @ ''c '')) =
      ''a b'' @ [CHR 0x0A] @ ''c ''"
    by (simp add: is_blank_def is_newline_def)
  have c: "clean_html ?E example_page None = ''a b'' @ [CHR 0x0A] @ ''c''"
    by (rule example_clean_page)
  note T1 = normaliser_output [of "Some ''#main''" ?E example_page,
      THEN conjunct1, THEN mp, OF h1]
  note T2 = normaliser_output [of None ?E example_page ?soup
      "''a   b'' @ [CHR 0x0A, CHR 0x0A, CHR 0x0A, CHR 0x0A] @ ''c ''"
      "''a b'' @ [CHR 0x0A] @ ''c ''"
      "clean_html ?E example_page None",
      THEN conjunct2, THEN mp,
      OF conjI [OF h2 conjI [OF h3 [symmetric] conjI [OF h4 [symmetric] refl]]]]
  from T2 have r2: "no_double (CHR '' '') (clean_html ?E example_page None) \<and>
                    no_double (CHR 0x0A) (clean_html ?E example_page None)"
    by blast
  show ?thesis
    using h1 T1 h2 h3 h4 c r2 by simp
qed

end
